theory Spec2Isabelle
  imports Complex_Main "HOL-Library.Word" "HOL-Library.Monad_Syntax"
begin

unbundle bit_operations_syntax

section \<open>Data model\<close>

text \<open>
  The inversive congruential generator of \<^verbatim>\<open>ICG.cpp\<close> / \<^verbatim>\<open>ICG.h\<close>.

  Integer widths. The class stores \<^verbatim>\<open>p, a, b, seed, curRand\<close> as
  \<^verbatim>\<open>unsigned long long\<close>, while every parameter, return value and local of the methods is an
  \<^verbatim>\<open>unsigned long\<close>. The comment in \<^verbatim>\<open>ICG::rand\<close> ("stored internally as unsigned
  long long values yet never take on values greater than MAX ( unsigned long )") shows the data
  model the code is written for: \<^verbatim>\<open>unsigned long\<close> has 32 bits and
  \<^verbatim>\<open>unsigned long long\<close> / \<^verbatim>\<open>long long\<close> have 64 bits (ILP32 and LLP64), the wide
  type being there to hold the product of two \<^verbatim>\<open>unsigned long\<close> values. That is the data
  model embedded here: every conversion that the C++ performs implicitly is a \<open>ucast\<close>.
  \<^verbatim>\<open>long long\<close> values are 64-bit words read in two's complement (\<open>sint\<close>, \<open><s\<close>).

  Floating point. A \<^verbatim>\<open>double\<close> is modelled by a \<open>real\<close>: arithmetic is exact, and there is
  no NaN, no infinity and no signed zero. For arguments below \<open>2 ^ 32\<close> the truncated
  \<^verbatim>\<open>sqrt\<close> of \<^verbatim>\<open>isPrime\<close> is the integer square root also in IEEE arithmetic.

  \<^verbatim>\<open>sqrt\<close> and \<^verbatim>\<open>log\<close> are the real functions \<open>sqrt\<close> and \<open>ln\<close>.

  Signed arithmetic. Overflow of \<^verbatim>\<open>long long\<close> is undefined in C++; here it wraps. For the
  inputs of the contract of \<^verbatim>\<open>inverse\<close> no signed operation overflows
  (\<open>inverse_loop_correct\<close>, \<open>inverse_norm_correct\<close>).

  Non-termination and traps. Each loop is a \<open>partial_function\<close> over \<open>option\<close>: \<open>None\<close>
  is "the call does not return". A division or remainder by zero has no result either.
\<close>

type_synonym ulong = "32 word"
type_synonym ulonglong = "64 word"
type_synonym longlong = "64 word"

record ICG =
  generatorIsValid :: bool
  gen_p :: ulonglong
  gen_a :: ulonglong
  gen_b :: ulonglong
  seed :: ulonglong
  curRand :: ulonglong
  mullerNormal :: real
  useMullerNormal :: bool

section \<open>Modular arithmetic kernel\<close>

text \<open>\<^verbatim>\<open>( unsigned long ) ( sqrt ( pr ) )\<close>: the square root as a real, truncated.\<close>

definition sqrt_ulong :: "ulong \<Rightarrow> ulong" where
  "sqrt_ulong pr = of_nat (nat \<lfloor>sqrt (real (unat pr))\<rfloor>)"

text \<open>The \<^verbatim>\<open>while ( cur <= max )\<close> loop of \<^verbatim>\<open>isPrime\<close>.\<close>

partial_function (option) isPrime_loop :: "ulong \<Rightarrow> ulong \<Rightarrow> ulong \<Rightarrow> bool option" where
  "isPrime_loop pr cur mx =
     (if cur \<le> mx then
        (if cur = 0 then None
         else if pr mod cur = 0 then Some False
         else isPrime_loop pr (cur + 2) mx)
      else Some True)"

definition isPrime :: "ulong \<Rightarrow> bool option" where
  "isPrime pr =
     (if pr = 0 \<or> pr = 1 then Some False
      else if pr = 2 \<or> pr = 3 then Some True
      else if pr mod 2 = 0 then Some False
      else isPrime_loop pr 3 (sqrt_ulong pr))"

text \<open>
  The first \<^verbatim>\<open>while\<close> loop of \<^verbatim>\<open>inverse\<close> (extended Euclid). The locals \<^verbatim>\<open>q\<close> and
  \<^verbatim>\<open>Rn\<close> are written before they are read in every iteration, so the loop state is
  \<^verbatim>\<open>rn, rn1, rn2, Rn1, Rn2\<close>; the loop's result is the final \<^verbatim>\<open>Rn1\<close>.
\<close>

partial_function (option) inverse_loop ::
  "ulong \<Rightarrow> ulong \<Rightarrow> ulong \<Rightarrow> longlong \<Rightarrow> longlong \<Rightarrow> longlong option" where
  "inverse_loop rn rn1 rn2 Rn1 Rn2 =
     (if rn2 \<noteq> 0 then
        (if rn1 = 0 then None
         else
           (let rn2' = rn mod rn1;
                q = (ucast (rn div rn1) :: longlong);
                Rn = Rn2 - q * Rn1
            in if rn2' \<noteq> 0 then inverse_loop rn1 rn2' rn2' Rn Rn1
               else inverse_loop rn rn1 rn2' Rn1 Rn2))
      else Some Rn1)"

text \<open>\<^verbatim>\<open>while ( Rn1 < 0 ) Rn1 += p;\<close>\<close>

partial_function (option) inverse_norm :: "ulonglong \<Rightarrow> longlong \<Rightarrow> longlong option" where
  "inverse_norm pp Rn1 = (if Rn1 <s 0 then inverse_norm pp (Rn1 + pp) else Some Rn1)"

definition inverse :: "ICG \<Rightarrow> ulong \<Rightarrow> ulong option" where
  "inverse g y =
     (if y = 0 then Some 0
      else if y = 1 then Some 1
      else if ucast y \<ge> gen_p g then Some 0
      else
        (let rn = (ucast (gen_p g) :: ulong) in
         do {
           Rn1 \<leftarrow> inverse_loop rn y (rn mod y) 1 0;
           Rn1' \<leftarrow> inverse_norm (gen_p g) Rn1;
           Some (ucast Rn1')
         }))"

section \<open>Parameter validator and state machine\<close>

text \<open>\<^verbatim>\<open>&&\<close> evaluates \<^verbatim>\<open>isPrime ( p )\<close> only when \<^verbatim>\<open>p > 3\<close>.\<close>

definition checkGeneratorIsValid :: "ICG \<Rightarrow> ICG option" where
  "checkGeneratorIsValid g =
     (if gen_p g > 3 then
        do {
          pr \<leftarrow> isPrime (ucast (gen_p g));
          Some (g\<lparr>generatorIsValid :=
                    pr \<and> gen_a g < gen_p g \<and> gen_b g < gen_p g \<and> seed g < gen_p g\<rparr>)
        }
      else Some (g\<lparr>generatorIsValid := False\<rparr>))"

text \<open>
  The constructor. Its initialiser list names \<^verbatim>\<open>generatorIsValid, p, a, b, seed, curRand\<close>
  only: \<^verbatim>\<open>mullerNormal\<close> and \<^verbatim>\<open>useMullerNormal\<close> keep what the object's storage holds,
  which is the first argument here.
\<close>

definition ICG_new :: "ICG \<Rightarrow> ulong \<Rightarrow> ulong \<Rightarrow> ulong \<Rightarrow> ulong \<Rightarrow> ICG option" where
  "ICG_new storage p' a' b' seed' =
     checkGeneratorIsValid
       (storage\<lparr>generatorIsValid := False, gen_p := ucast p', gen_a := ucast a',
                gen_b := ucast b', seed := ucast seed', curRand := ucast seed'\<rparr>)"

definition reparametrize ::
  "ulong \<Rightarrow> ulong \<Rightarrow> ulong \<Rightarrow> ulong \<Rightarrow> ICG \<Rightarrow> (bool \<times> ICG) option" where
  "reparametrize p' a' b' seed' g =
     do {
       g' \<leftarrow> checkGeneratorIsValid
               (g\<lparr>generatorIsValid := False, gen_p := ucast p', gen_a := ucast a',
                  gen_b := ucast b', seed := ucast seed', curRand := ucast seed'\<rparr>);
       Some (generatorIsValid g', g')
     }"

definition reseed :: "ulong \<Rightarrow> ICG \<Rightarrow> (bool \<times> ICG) option" where
  "reseed newSeed g =
     do {
       g' \<leftarrow> checkGeneratorIsValid
               (g\<lparr>generatorIsValid := False, seed := ucast newSeed, curRand := ucast newSeed\<rparr>);
       Some (generatorIsValid g', g')
     }"

text \<open>
  \<^verbatim>\<open>rand ( )\<close>. \<^verbatim>\<open>curRand\<close> is an \<^verbatim>\<open>unsigned long long\<close>; it is truncated to
  \<^verbatim>\<open>unsigned long\<close> as the argument of \<^verbatim>\<open>inverse\<close>, by the two casts
  \<^verbatim>\<open>( unsigned long )\<close> and as the return value.
\<close>

definition rand :: "ICG \<Rightarrow> (ulong \<times> ICG) option" where
  "rand g =
     (if \<not> generatorIsValid g then Some (0, g)
      else if curRand g = 0 then
        (let c = (ucast (ucast (gen_b g) :: ulong) :: ulonglong)
         in Some (ucast c, g\<lparr>curRand := c\<rparr>))
      else
        do {
          i \<leftarrow> inverse g (ucast (curRand g));
          (if gen_p g = 0 then None
           else
             (let inv = (ucast i :: ulonglong);
                  temp = (gen_a g * inv + gen_b g) mod gen_p g;
                  c = (ucast (ucast temp :: ulong) :: ulonglong)
              in Some (ucast c, g\<lparr>curRand := c\<rparr>)))
        })"

section \<open>Uniform samplers\<close>

definition rand01 :: "ICG \<Rightarrow> (real \<times> ICG) option" where
  "rand01 g =
     (if \<not> generatorIsValid g then Some (0, g)
      else
        do {
          (r, g') \<leftarrow> rand g;
          Some (real (unat r) / real (unat (gen_p g')), g')
        })"

text \<open>\<^verbatim>\<open>( unsigned long ) ( rand01 ( ) * range )\<close>: the product is truncated.\<close>

definition rand_range :: "ulong \<Rightarrow> ICG \<Rightarrow> (ulong \<times> ICG) option" where
  "rand_range rng g =
     do {
       (u, g') \<leftarrow> rand01 g;
       Some (of_nat (nat \<lfloor>u * real (unat rng)\<rfloor>), g')
     }"

definition randInterval :: "real \<Rightarrow> real \<Rightarrow> ICG \<Rightarrow> (real \<times> ICG) option" where
  "randInterval A B g =
     (if \<not> generatorIsValid g then Some (0, g)
      else if B = A then Some (A, g)
      else
        (let (A', B') = (if B < A then (B, A) else (A, B)) in
         do {
           (r, g') \<leftarrow> rand g;
           Some (real (unat r) / real (unat (gen_p g')) * (B' - A') + A', g')
         }))"

section \<open>Gaussian sampler\<close>

definition EPS :: real where
  "EPS = 1 / 10000"

text \<open>
  The \<^verbatim>\<open>do ... while ( q <= EPS || q > 1.0 )\<close> loop of \<^verbatim>\<open>randStdNorm\<close>; it returns
  \<^verbatim>\<open>u1, u2, q\<close> of the accepted iteration and the generator after it.
\<close>

partial_function (option) randStdNorm_loop :: "ICG \<Rightarrow> (real \<times> real \<times> real \<times> ICG) option" where
  "randStdNorm_loop g =
     do {
       (u1, g1) \<leftarrow> randInterval (- 1) 1 g;
       (u2, g2) \<leftarrow> randInterval (- 1) 1 g1;
       (let q = u1 * u1 + u2 * u2
        in if q \<le> EPS \<or> q > 1 then randStdNorm_loop g2 else Some (u1, u2, q, g2))
     }"

definition randStdNorm :: "ICG \<Rightarrow> (real \<times> ICG) option" where
  "randStdNorm g =
     (if useMullerNormal g then Some (mullerNormal g, g\<lparr>useMullerNormal := False\<rparr>)
      else
        do {
          (u1, u2, q, g') \<leftarrow> randStdNorm_loop g;
          (let r = sqrt (- 2 * ln q / q)
           in Some (r * u1, g'\<lparr>mullerNormal := r * u2, useMullerNormal := True\<rparr>))
        })"

definition randNormal :: "real \<Rightarrow> real \<Rightarrow> ICG \<Rightarrow> (real \<times> ICG) option" where
  "randNormal mu ss g =
     do {
       (z, g') \<leftarrow> randStdNorm g;
       Some (sqrt ss * z + mu, g')
     }"

section \<open>Reference notions\<close>

text \<open>
  The mathematical primality predicate that \<^verbatim>\<open>isPrime\<close> is compared with, in a form that
  can be evaluated: \<open>n\<close> is prime when it exceeds 1 and nothing in \<open>2, ..., n - 1\<close> divides it
  (\<open>prime_nat_iff_divisors\<close> below gives the usual wording).
\<close>

definition prime_nat :: "nat \<Rightarrow> bool" where
  "prime_nat n = (1 < n \<and> (\<forall>m \<in> {2..<n}. \<not> m dvd n))"


text \<open>The divisors that the loop of \<open>isPrime\<close> tries from \<open>c\<close> on: \<open>c, c + 2, ...\<close> up to \<open>m\<close>.\<close>

definition no_divisor_from :: "nat \<Rightarrow> nat \<Rightarrow> nat \<Rightarrow> bool" where
  "no_divisor_from n c m = (\<forall>k. c + 2 * k \<le> m \<longrightarrow> \<not> (c + 2 * k) dvd n)"


text \<open>
  The validity predicate in the words of the specification: \<open>p > 3\<close>, \<open>p\<close> prime, \<open>a < p\<close>,
  \<open>b < p\<close>, \<open>seed < p\<close>, over parameters as the constructor and \<^verbatim>\<open>reparametrize\<close> receive them.
\<close>

definition valid_params :: "ulong \<Rightarrow> ulong \<Rightarrow> ulong \<Rightarrow> ulong \<Rightarrow> bool" where
  "valid_params p' a' b' seed' =
     (p' > 3 \<and> prime_nat (unat p') \<and> a' < p' \<and> b' < p' \<and> seed' < p')"

text \<open>An \<^verbatim>\<open>unsigned long long\<close> field holds the value of an \<^verbatim>\<open>unsigned long\<close>.\<close>

definition fits_ulong :: "ulonglong \<Rightarrow> bool" where
  "fits_ulong x = (ucast (ucast x :: ulong) = x)"

text \<open>
  The invariant of the generator: every integer field holds an \<^verbatim>\<open>unsigned long\<close> value (the
  fields are only ever assigned from \<^verbatim>\<open>unsigned long\<close> values), and when the flag is set the
  parameters satisfy the validity predicate and \<open>curRand < p\<close>. The constructor establishes it
  (\<open>ICG_new_inv\<close>) and so does \<^verbatim>\<open>reparametrize\<close> (\<open>reparametrize_inv\<close>); \<^verbatim>\<open>reseed\<close>,
  \<^verbatim>\<open>rand ( )\<close> and \<^verbatim>\<open>randInterval\<close> keep it (\<open>reseed_inv\<close>, \<open>rand_inv\<close>, \<open>randInterval_inv\<close>).
\<close>

definition ICG_inv :: "ICG \<Rightarrow> bool" where
  "ICG_inv g =
     (fits_ulong (gen_p g) \<and> fits_ulong (gen_a g) \<and> fits_ulong (gen_b g) \<and>
      fits_ulong (seed g) \<and> fits_ulong (curRand g) \<and>
      (generatorIsValid g \<longrightarrow>
         gen_p g > 3 \<and> prime_nat (unat (gen_p g)) \<and> gen_a g < gen_p g \<and>
         gen_b g < gen_p g \<and> seed g < gen_p g \<and> curRand g < gen_p g))"

text \<open>A valid generator: the flag is set and the fields are as the validator requires.\<close>

definition valid_state :: "ICG \<Rightarrow> bool" where
  "valid_state g =
     (generatorIsValid g \<and> gen_p g > 3 \<and> prime_nat (unat (gen_p g)) \<and> gen_a g < gen_p g \<and>
      gen_b g < gen_p g \<and> seed g < gen_p g \<and> curRand g < gen_p g)"

text \<open>
  Storage for the examples: a zero-initialised object (as the static member of
  \<^verbatim>\<open>ICGStatic\<close> is before its constructor runs), and \<open>icg7\<close>, which the constructor builds in
  it from \<open>(p, a, b, seed) = (7, 3, 2, 1)\<close>.
\<close>

definition zero_storage :: ICG where
  "zero_storage =
     \<lparr>generatorIsValid = False, gen_p = 0, gen_a = 0, gen_b = 0, seed = 0, curRand = 0,
      mullerNormal = 0, useMullerNormal = False\<rparr>"

definition icg7 :: ICG where
  "icg7 =
     \<lparr>generatorIsValid = True, gen_p = 7, gen_a = 3, gen_b = 2, seed = 1, curRand = 1,
      mullerNormal = 0, useMullerNormal = False\<rparr>"

text \<open>\<open>n\<close> successive calls of \<^verbatim>\<open>rand ( )\<close>: the values returned, in order, and the final state.\<close>

fun rand_seq :: "nat \<Rightarrow> ICG \<Rightarrow> (ulong list \<times> ICG) option" where
  "rand_seq 0 g = Some ([], g)"
| "rand_seq (Suc n) g =
     do {
       (r, g') \<leftarrow> rand g;
       (rs, g'') \<leftarrow> rand_seq n g';
       Some (r # rs, g'')
     }"

text \<open>Two generators agree on everything that \<^verbatim>\<open>rand ( )\<close> reads.\<close>

definition same_stream :: "ICG \<Rightarrow> ICG \<Rightarrow> bool" where
  "same_stream g h =
     (generatorIsValid g = generatorIsValid h \<and> gen_p g = gen_p h \<and> gen_a g = gen_a h \<and>
      gen_b g = gen_b h \<and> curRand g = curRand h)"

text \<open>
  One iteration of the body of the rejection loop of \<^verbatim>\<open>randStdNorm\<close>: the two draws and
  \<open>q\<close>, with the state after them.
\<close>

definition randStdNorm_draw :: "ICG \<Rightarrow> (real \<times> real \<times> real \<times> ICG) option" where
  "randStdNorm_draw g =
     do {
       (u1, g1) \<leftarrow> randInterval (- 1) 1 g;
       (u2, g2) \<leftarrow> randInterval (- 1) 1 g1;
       Some (u1, u2, u1 * u1 + u2 * u2, g2)
     }"

text \<open>The rejection loop started in \<open>g\<close> accepts a pair in one of its first \<open>n\<close> iterations.\<close>

fun accepts_within :: "nat \<Rightarrow> ICG \<Rightarrow> bool" where
  "accepts_within 0 g = False"
| "accepts_within (Suc n) g =
     (case randStdNorm_draw g of
        None \<Rightarrow> False
      | Some (u1, u2, q, g2) \<Rightarrow> if q \<le> EPS \<or> q > 1 then accepts_within n g2 else True)"

text \<open>What the constructor builds in zero-initialised storage from \<open>(5, 0, 0, 0)\<close> and \<open>(9, 0, 0, 0)\<close>.\<close>

definition icg5 :: ICG where
  "icg5 =
     \<lparr>generatorIsValid = True, gen_p = 5, gen_a = 0, gen_b = 0, seed = 0, curRand = 0,
      mullerNormal = 0, useMullerNormal = False\<rparr>"

definition icg9 :: ICG where
  "icg9 =
     \<lparr>generatorIsValid = False, gen_p = 9, gen_a = 0, gen_b = 0, seed = 0, curRand = 0,
      mullerNormal = 0, useMullerNormal = False\<rparr>"

text \<open>
  The generator \<open>icg7\<close> after one call of \<^verbatim>\<open>randStdNorm\<close>: the draws were 5 and 4, that is
  \<open>u1 = 3/7\<close>, \<open>u2 = 1/7\<close> and \<open>q = 10/49\<close>, and the spare \<open>r * u2\<close> is cached.
\<close>

definition icg7_spare :: ICG where
  "icg7_spare =
     icg7\<lparr>curRand := 4, mullerNormal := sqrt (- 2 * ln (10 / 49) / (10 / 49)) * (1 / 7),
          useMullerNormal := True\<rparr>"

declare isPrime_loop.simps [code] inverse_loop.simps [code] inverse_norm.simps [code]

section \<open>Primality test\<close>

lemma prime_nat_iff_divisors:
  "prime_nat n \<longleftrightarrow> 1 < n \<and> (\<forall>m. m dvd n \<longrightarrow> m = 1 \<or> m = n)"
proof
  assume h: "prime_nat n"
  then have n: "1 < n" and nd: "\<And>m. 2 \<le> m \<Longrightarrow> m < n \<Longrightarrow> \<not> m dvd n"
    by (auto simp: prime_nat_def)
  have "m = 1 \<or> m = n" if "m dvd n" for m
  proof -
    from that n have "m \<le> n" "m \<noteq> 0" by (auto dest: dvd_imp_le intro: Nat.gr0I)
    with nd [of m] that show ?thesis by (cases "m = 1"; cases "m = n") auto
  qed
  with n show "1 < n \<and> (\<forall>m. m dvd n \<longrightarrow> m = 1 \<or> m = n)" by blast
next
  assume "1 < n \<and> (\<forall>m. m dvd n \<longrightarrow> m = 1 \<or> m = n)"
  then show "prime_nat n" by (auto simp: prime_nat_def)
qed

lemma sqrt_square_nat: "sqrt (real (k * k)) = real k"
  by (simp only: of_nat_mult real_sqrt_abs2 abs_of_nat)

lemma floor_sqrt_bounds:
  fixes n :: nat
  defines "s \<equiv> nat \<lfloor>sqrt (real n)\<rfloor>"
  shows "s * s \<le> n" and "n < (s + 1) * (s + 1)"
proof -
  have nn: "0 \<le> sqrt (real n)" by simp
  have 1: "real s \<le> sqrt (real n)" unfolding s_def using nn by simp
  have 2: "sqrt (real n) < real (s + 1)" unfolding s_def using nn by simp linarith
  have "sqrt (real (s * s)) \<le> sqrt (real n)"
    using 1 by (simp only: sqrt_square_nat)
  then show "s * s \<le> n"
    by (simp only: real_sqrt_le_iff of_nat_le_iff)
  have "sqrt (real n) < sqrt (real ((s + 1) * (s + 1)))"
    using 2 by (simp only: sqrt_square_nat)
  then show "n < (s + 1) * (s + 1)"
    by (simp only: real_sqrt_less_iff of_nat_less_iff)
qed

lemma square_less_imp_less: "(x::nat) * x < y * y \<Longrightarrow> x < y"
  by (meson mult_le_mono not_le_imp_less not_less)

lemma unat_sqrt_ulong:
  "unat (sqrt_ulong pr) = nat \<lfloor>sqrt (real (unat pr))\<rfloor>"
proof -
  let ?s = "nat \<lfloor>sqrt (real (unat pr))\<rfloor>"
  have "?s * ?s \<le> unat pr" by (rule floor_sqrt_bounds)
  moreover have "unat pr < 2 ^ 32" using unsigned_less [of pr] by simp
  ultimately have "?s * ?s < 65536 * 65536" by simp
  then have "?s < 65536" by (rule square_less_imp_less)
  then show ?thesis
    unfolding sqrt_ulong_def by (simp add: unat_of_nat)
qed

lemma sqrt_ulong_bounds:
  "unat (sqrt_ulong pr) * unat (sqrt_ulong pr) \<le> unat pr"
  "unat pr < (unat (sqrt_ulong pr) + 1) * (unat (sqrt_ulong pr) + 1)"
  "unat (sqrt_ulong pr) < 65536"
proof -
  show 1: "unat (sqrt_ulong pr) * unat (sqrt_ulong pr) \<le> unat pr"
    unfolding unat_sqrt_ulong by (rule floor_sqrt_bounds)
  show "unat pr < (unat (sqrt_ulong pr) + 1) * (unat (sqrt_ulong pr) + 1)"
    unfolding unat_sqrt_ulong by (rule floor_sqrt_bounds)
  have "unat pr < 2 ^ 32" using unsigned_less [of pr] by simp
  with 1 have "unat (sqrt_ulong pr) * unat (sqrt_ulong pr) < 65536 * 65536" by simp
  then show "unat (sqrt_ulong pr) < 65536" by (rule square_less_imp_less)
qed

lemma no_divisor_from_step:
  "c \<le> m \<Longrightarrow> no_divisor_from n c m \<longleftrightarrow> \<not> c dvd n \<and> no_divisor_from n (c + 2) m"
proof -
  assume cm: "c \<le> m"
  show ?thesis
  proof
    assume h: "no_divisor_from n c m"
    have "\<not> c dvd n" using h cm unfolding no_divisor_from_def by (metis add.right_neutral mult_0_right)
    moreover have "no_divisor_from n (c + 2) m"
      unfolding no_divisor_from_def
    proof (intro allI impI)
      fix k assume "c + 2 + 2 * k \<le> m"
      then have "c + 2 * Suc k \<le> m" by simp
      with h have "\<not> (c + 2 * Suc k) dvd n" unfolding no_divisor_from_def by blast
      then show "\<not> (c + 2 + 2 * k) dvd n" by (simp add: add.commute add.left_commute)
    qed
    ultimately show "\<not> c dvd n \<and> no_divisor_from n (c + 2) m" by blast
  next
    assume h: "\<not> c dvd n \<and> no_divisor_from n (c + 2) m"
    show "no_divisor_from n c m"
      unfolding no_divisor_from_def
    proof (intro allI impI)
      fix k assume k: "c + 2 * k \<le> m"
      show "\<not> (c + 2 * k) dvd n"
      proof (cases k)
        case 0
        with h show ?thesis by simp
      next
        case (Suc j)
        with k have "c + 2 + 2 * j \<le> m" by simp
        with h have "\<not> (c + 2 + 2 * j) dvd n" unfolding no_divisor_from_def by blast
        with Suc show ?thesis by (simp add: add.commute add.left_commute)
      qed
    qed
  qed
qed

lemma no_divisor_from_empty: "m < c \<Longrightarrow> no_divisor_from n c m"
  unfolding no_divisor_from_def by auto

lemma isPrime_loop_correct:
  assumes "unat mx < 65536" and "unat cur \<noteq> 0"
  shows "isPrime_loop pr cur mx = Some (no_divisor_from (unat pr) (unat cur) (unat mx))"
  using assms
proof (induction "unat mx + 1 - unat cur" arbitrary: cur rule: less_induct)
  case less
  show ?case
  proof (cases "cur \<le> mx")
    case False
    then have "unat mx < unat cur" by (simp add: word_le_nat_alt)
    then have "no_divisor_from (unat pr) (unat cur) (unat mx)" by (rule no_divisor_from_empty)
    with False show ?thesis by (subst isPrime_loop.simps) simp
  next
    case True
    then have le: "unat cur \<le> unat mx" by (simp add: word_le_nat_alt)
    with less.prems have "unat cur + 2 < 2 ^ 32" by simp
    then have u2: "unat (cur + 2) = unat cur + 2"
      by (simp add: unat_word_ariths)
    have c0: "cur \<noteq> 0" using less.prems by (auto simp: unat_eq_0)
    have dv: "pr mod cur = 0 \<longleftrightarrow> unat cur dvd unat pr"
      by (simp add: word_unat_eq_iff unat_mod dvd_eq_mod_eq_0)
    have IH: "isPrime_loop pr (cur + 2) mx = Some (no_divisor_from (unat pr) (unat (cur + 2)) (unat mx))"
      by (rule less.hyps) (use le u2 less.prems in auto)
    show ?thesis
      by (subst isPrime_loop.simps)
        (use True c0 dv IH u2 no_divisor_from_step [OF le, of "unat pr"] in auto)
  qed
qed

lemma composite_small_divisor:
  assumes "1 < n" and "\<not> prime_nat n"
  shows "\<exists>d. 1 < d \<and> d * d \<le> n \<and> d dvd n"
proof -
  from assms obtain m where m: "2 \<le> m" "m < n" "m dvd n"
    by (auto simp: prime_nat_def)
  then obtain k where k: "n = m * k" by (auto simp: dvd_def)
  with m assms have k1: "1 < k" by (cases "k = 0"; cases "k = 1") auto
  show ?thesis
  proof (cases "m \<le> k")
    case True
    then have "m * m \<le> n" using k by simp
    with m show ?thesis by (intro exI [of _ m]) auto
  next
    case False
    then have "k * k \<le> n" using k by simp
    with k1 k show ?thesis by (intro exI [of _ k]) auto
  qed
qed

lemma odd_trial_division:
  assumes n: "5 \<le> n" "odd n" and s: "s * s \<le> n" "n < (s + 1) * (s + 1)"
  shows "no_divisor_from n 3 s \<longleftrightarrow> prime_nat n"
proof
  assume nd: "no_divisor_from n 3 s"
  show "prime_nat n"
  proof (rule ccontr)
    assume "\<not> prime_nat n"
    with n obtain d where d: "1 < d" "d * d \<le> n" "d dvd n"
      using composite_small_divisor [of n] by auto
    with n have "odd d" by (meson dvd_trans)
    with d have "3 \<le> d" by (cases "d = 2") auto
    from \<open>odd d\<close> obtain j where j: "d = 2 * j + 1" by (rule oddE)
    with \<open>3 \<le> d\<close> have k: "d = 3 + 2 * (j - 1)" by simp
    from d s have "d * d < (s + 1) * (s + 1)" by simp
    then have "d \<le> s" using square_less_imp_less [of d "s + 1"] by simp
    with nd k d show False unfolding no_divisor_from_def by metis
  qed
next
  assume p: "prime_nat n"
  show "no_divisor_from n 3 s"
    unfolding no_divisor_from_def
  proof (intro allI impI)
    fix k assume k: "3 + 2 * k \<le> s"
    have "s < n"
    proof (rule ccontr)
      assume "\<not> s < n"
      then have "n \<le> s" by simp
      then have "n * n \<le> s * s" by (simp add: mult_le_mono)
      from this s(1) have "n * n \<le> n" by (rule le_trans)
      with n show False by simp
    qed
    with k have "3 + 2 * k \<in> {2..<n}" by simp
    with p show "\<not> (3 + 2 * k) dvd n" unfolding prime_nat_def by blast
  qed
qed

lemma isPrime_correct: "isPrime pr = Some (prime_nat (unat pr))"
proof -
  consider "pr = 0 \<or> pr = 1" | "pr = 2 \<or> pr = 3" | "pr \<noteq> 0" "pr \<noteq> 1" "pr \<noteq> 2" "pr \<noteq> 3"
    by blast
  then show ?thesis
  proof cases
    case 1
    then show ?thesis by (auto simp: isPrime_def prime_nat_def)
  next
    case 2
    have "prime_nat 2" "prime_nat 3" by (simp_all add: prime_nat_def) code_simp
    with 2 show ?thesis by (auto simp: isPrime_def)
  next
    case 3
    then have "unat pr \<noteq> 0" "unat pr \<noteq> 1" "unat pr \<noteq> 2" "unat pr \<noteq> 3"
      by (simp_all add: word_unat_eq_iff)
    then have n4: "4 \<le> unat pr" by simp
    have ev: "pr mod 2 = 0 \<longleftrightarrow> even (unat pr)"
      by (simp add: word_unat_eq_iff unat_mod even_iff_mod_2_eq_zero)
    show ?thesis
    proof (cases "pr mod 2 = 0")
      case True
      with ev n4 have "2 \<in> {2..<unat pr}" "2 dvd unat pr" by auto
      then have "\<not> prime_nat (unat pr)" unfolding prime_nat_def by blast
      with 3 True show ?thesis by (simp add: isPrime_def)
    next
      case False
      with ev n4 have odd: "odd (unat pr)" and n5: "5 \<le> unat pr" by (auto elim: oddE)
      have "isPrime_loop pr 3 (sqrt_ulong pr) = Some (no_divisor_from (unat pr) (unat (3::ulong)) (unat (sqrt_ulong pr)))"
        by (rule isPrime_loop_correct) (simp_all add: sqrt_ulong_bounds)
      also have "unat (3::ulong) = 3" by simp
      also have "no_divisor_from (unat pr) 3 (unat (sqrt_ulong pr)) = prime_nat (unat pr)"
        by (rule odd_trial_division [OF n5 odd sqrt_ulong_bounds(1,2)])
      finally show ?thesis using 3 False by (simp add: isPrime_def)
    qed
  qed
qed


section \<open>Conversions between the integer types\<close>

lemma unat_ucast_up: "unat (ucast (w :: 32 word) :: 64 word) = unat w"
proof -
  have "unat w < 2 ^ 32" using unsigned_less [of w] by simp
  then have "unat w < 2 ^ 64" by simp
  then show ?thesis by (simp add: unsigned_ucast_eq take_bit_nat_eq_self)
qed

lemma unat_ucast_down: "unat (x :: 64 word) < 2 ^ 32 \<Longrightarrow> unat (ucast x :: 32 word) = unat x"
  by (simp add: unsigned_ucast_eq take_bit_nat_eq_self)

lemma sint_ucast_up: "sint (ucast (w :: 32 word) :: 64 word) = uint w"
proof -
  have "uint w < 2 ^ 32" using uint_lt2p [of w] by simp
  then have lt: "uint w < 2 ^ 63" by (rule less_le_trans) simp
  have ge: "- (2 ^ 63) \<le> uint w" by (rule order_trans [of _ 0]) simp_all
  have "uint (ucast w :: 64 word) = uint w" by (simp add: uint_up_ucast is_up)
  then have "sint (ucast w :: 64 word) = signed_take_bit 63 (uint w)" by (simp add: sint_uint)
  also have "\<dots> = uint w" using ge lt by (rule signed_take_bit_int_eq_self)
  finally show ?thesis .
qed

lemma sint_diff_exact:
  fixes a b :: "64 word"
  assumes "\<bar>sint a - sint b\<bar> < 2 ^ 63"
  shows "sint (a - b) = sint a - sint b"
proof -
  from assms have "- (2 ^ 63) \<le> sint a - sint b" "sint a - sint b < 2 ^ 63" by linarith+
  then have "signed_take_bit 63 (sint a - sint b) = sint a - sint b"
    by (rule signed_take_bit_int_eq_self)
  then show ?thesis by (simp add: sint_word_diff)
qed

lemma sint_mult_exact:
  fixes a b :: "64 word"
  assumes "\<bar>sint a * sint b\<bar> < 2 ^ 63"
  shows "sint (a * b) = sint a * sint b"
proof -
  from assms have "- (2 ^ 63) \<le> sint a * sint b" "sint a * sint b < 2 ^ 63" by linarith+
  then have "signed_take_bit 63 (sint a * sint b) = sint a * sint b"
    by (rule signed_take_bit_int_eq_self)
  then show ?thesis by (simp add: sint_word_mult)
qed

lemma sint_add_exact:
  fixes a b :: "64 word"
  assumes "- (2 ^ 63) \<le> sint a + sint b" "sint a + sint b < 2 ^ 63"
  shows "sint (a + b) = sint a + sint b"
proof -
  from assms have "signed_take_bit 63 (sint a + sint b) = sint a + sint b"
    by (rule signed_take_bit_int_eq_self)
  then show ?thesis by (simp add: sint_word_add)
qed

section \<open>Modular inverse\<close>

lemma inverse_loop_correct:
  fixes Y P :: int
  assumes P: "1 < P" "P < 2 ^ 63"
  shows "rn1 \<noteq> 0 \<Longrightarrow> rn1 < rn \<Longrightarrow> coprime (unat rn) (unat rn1) \<Longrightarrow> rn2 \<noteq> 0 \<Longrightarrow>
         (sint Rn1 * Y) mod P = uint rn1 mod P \<Longrightarrow>
         (sint Rn2 * Y) mod P = uint rn mod P \<Longrightarrow>
         uint rn * \<bar>sint Rn1\<bar> + uint rn1 * \<bar>sint Rn2\<bar> \<le> P \<Longrightarrow>
         \<exists>R. inverse_loop rn rn1 rn2 Rn1 Rn2 = Some R \<and> (sint R * Y) mod P = 1 \<and> 2 * \<bar>sint R\<bar> \<le> P"
proof (induction "unat rn1" arbitrary: rn rn1 rn2 Rn1 Rn2 rule: less_induct)
  case less
  define r where "r = uint rn"
  define r1 where "r1 = uint rn1"
  define A where "A = sint Rn1"
  define B where "B = sint Rn2"
  define Q where "Q = r div r1"
  define q where "q = (ucast (rn div rn1) :: longlong)"
  define Rn where "Rn = Rn2 - q * Rn1"
  have rn1_nz: "rn1 \<noteq> 0" using less.prems(1) .
  have "0 < rn1" using rn1_nz by (simp add: word_neq_0_conv)
  then have r1: "0 < r1" "r1 < r" using less.prems(2) by (simp_all add: r_def r1_def word_less_def)
  have n1: "0 < unat rn1" "unat rn1 < unat rn"
    using rn1_nz less.prems(2) by (simp_all add: unat_gt_0 word_less_nat_alt)
  have sq: "sint q = Q"
    unfolding q_def Q_def r_def r1_def by (simp add: sint_ucast_up uint_div)
  have decomp: "r = Q * r1 + r mod r1" unfolding Q_def by simp
  have m: "0 \<le> r mod r1" "r mod r1 < r1" using r1 by simp_all
  have Q0: "0 \<le> Q" using r1 unfolding Q_def by (simp add: pos_imp_zdiv_nonneg_iff)
  have "Q * 1 \<le> Q * r1" using Q0 r1 by (intro mult_left_mono) simp_all
  with decomp m have Q: "0 \<le> Q" "Q \<le> r" using Q0 by linarith+
  have bound: "r * \<bar>A\<bar> + r1 * \<bar>B\<bar> \<le> P"
    using less.prems(7) by (simp add: r_def r1_def A_def B_def)
  have "Q * \<bar>A\<bar> \<le> r * \<bar>A\<bar>" using Q by (simp add: mult_right_mono)
  moreover have "0 \<le> r1 * \<bar>B\<bar>" using r1 by simp
  ultimately have QA: "\<bar>Q * A\<bar> \<le> P" using bound Q by (simp add: abs_mult)
  have sqA: "sint (q * Rn1) = Q * A"
    using sint_mult_exact [of q Rn1] QA P sq by (simp add: A_def)
  have "\<bar>B - Q * A\<bar> \<le> \<bar>B\<bar> + \<bar>Q * A\<bar>" by (rule abs_triangle_ineq4)
  also have "\<bar>Q * A\<bar> = Q * \<bar>A\<bar>" using Q by (simp add: abs_mult)
  finally have "\<bar>B - Q * A\<bar> \<le> \<bar>B\<bar> + Q * \<bar>A\<bar>" .
  then have "r1 * \<bar>B - Q * A\<bar> \<le> r1 * (\<bar>B\<bar> + Q * \<bar>A\<bar>)"
    using r1 by (simp add: mult_left_mono)
  also have "\<dots> + (r mod r1) * \<bar>A\<bar> = r1 * \<bar>B\<bar> + (Q * r1 + r mod r1) * \<bar>A\<bar>"
    by (simp add: algebra_simps)
  finally have RnB: "r1 * \<bar>B - Q * A\<bar> + (r mod r1) * \<bar>A\<bar> \<le> P"
    using bound decomp by simp
  have "\<bar>B - Q * A\<bar> \<le> r1 * \<bar>B - Q * A\<bar>" using r1 by (simp add: mult_le_cancel_right1)
  moreover have "0 \<le> (r mod r1) * \<bar>A\<bar>" using m by simp
  ultimately have "\<bar>B - Q * A\<bar> \<le> P" using RnB by linarith
  then have sRn: "sint Rn = B - Q * A"
    unfolding Rn_def using sint_diff_exact [of Rn2 "q * Rn1"] P sqA by (simp add: B_def)
  have cA: "(A * Y) mod P = r1 mod P" and cB: "(B * Y) mod P = r mod P"
    using less.prems(5,6) by (simp_all add: A_def B_def r_def r1_def)
  have "(sint Rn * Y) mod P = (B * Y - Q * (A * Y)) mod P"
    by (simp add: sRn algebra_simps)
  also have "\<dots> = (r - Q * r1) mod P"
    by (metis cA cB mod_diff_cong mod_mult_right_eq)
  also have "r - Q * r1 = r mod r1" using decomp by simp
  finally have cRn: "(sint Rn * Y) mod P = (r mod r1) mod P" .
  have um: "unat (rn mod rn1) = unat rn mod unat rn1" by (simp add: unat_mod)
  have im: "uint (rn mod rn1) = r mod r1" by (simp add: r_def r1_def uint_mod)
  show ?case
  proof (cases "rn mod rn1 = 0")
    case True
    then have "unat rn mod unat rn1 = 0" using um by simp
    then have "unat rn1 dvd unat rn" by (simp add: dvd_eq_mod_eq_0)
    with less.prems(3) have "unat rn1 = 1"
      using coprime_common_divisor_nat [of "unat rn" "unat rn1" "unat rn1"] by simp
    then have "rn1 = 1" by (simp add: word_unat_eq_iff)
    then have r11: "r1 = 1" by (simp add: r1_def)
    have ev: "inverse_loop rn rn1 rn2 Rn1 Rn2 = Some Rn1"
      apply (subst inverse_loop.simps)
      apply (simp add: Let_def True less.prems(4) rn1_nz)
      apply (subst inverse_loop.simps)
      apply simp
      done
    have "2 * \<bar>A\<bar> \<le> r * \<bar>A\<bar>" using r1 r11 by (simp add: mult_right_mono)
    moreover have "0 \<le> r1 * \<bar>B\<bar>" using r1 by simp
    ultimately have "2 * \<bar>A\<bar> \<le> P" using bound by linarith
    moreover have "(A * Y) mod P = 1" using cA r11 P by simp
    ultimately show ?thesis using ev by (simp add: A_def)
  next
    case False
    have ev: "inverse_loop rn rn1 rn2 Rn1 Rn2 = inverse_loop rn1 (rn mod rn1) (rn mod rn1) Rn Rn1"
      apply (subst inverse_loop.simps)
      apply (simp add: Let_def False less.prems(4) rn1_nz Rn_def q_def)
      done
    have lt: "unat (rn mod rn1) < unat rn1" using n1 by (simp add: um)
    then have lt': "rn mod rn1 < rn1" by (simp add: word_less_nat_alt)
    have cop: "coprime (unat rn1) (unat (rn mod rn1))"
      using n1 less.prems(3) by (simp add: um coprime_mod_right_iff coprime_commute)
    have "\<exists>R. inverse_loop rn1 (rn mod rn1) (rn mod rn1) Rn Rn1 = Some R \<and> (sint R * Y) mod P = 1 \<and> 2 * \<bar>sint R\<bar> \<le> P"
    proof (rule less.hyps [OF lt False lt' cop False])
      show "sint Rn * Y mod P = uint (rn mod rn1) mod P" using cRn im by simp
      show "sint Rn1 * Y mod P = uint rn1 mod P" using less.prems(5) .
      show "uint rn1 * \<bar>sint Rn\<bar> + uint (rn mod rn1) * \<bar>sint Rn1\<bar> \<le> P"
        using RnB by (simp add: im sRn) (simp add: r1_def A_def)
    qed
    with ev show ?thesis by simp
  qed
qed

lemma uint_small_sint:
  fixes x :: "64 word"
  assumes "uint x < 2 ^ 63"
  shows "sint x = uint x"
proof -
  have ge: "- (2 ^ 63) \<le> uint x" by (rule order_trans [of _ 0]) simp_all
  have "sint x = signed_take_bit 63 (uint x)" by (simp add: sint_uint)
  also have "\<dots> = uint x" using ge assms by (rule signed_take_bit_int_eq_self)
  finally show ?thesis .
qed

lemma inverse_norm_correct:
  assumes P: "uint pp < 2 ^ 63" and R: "\<bar>sint R\<bar> < uint pp"
  shows "\<exists>R'. inverse_norm pp R = Some R' \<and> sint R' = sint R mod uint pp"
proof (cases "R <s 0")
  case False
  then have "0 \<le> sint R" by (simp add: word_sless_alt)
  with R have "sint R mod uint pp = sint R" by simp
  moreover have "inverse_norm pp R = Some R" using False by (subst inverse_norm.simps) simp
  ultimately show ?thesis by simp
next
  case True
  then have neg: "sint R < 0" by (simp add: word_sless_alt)
  have spp: "sint pp = uint pp" using P by (rule uint_small_sint)
  have lo: "0 < sint R + uint pp" and hi: "sint R + uint pp < uint pp" using neg R by linarith+
  have "sint (R + pp) = sint R + sint pp"
    by (rule sint_add_exact) (use lo hi P spp in linarith)+
  then have s: "sint (R + pp) = sint R + uint pp" using spp by simp
  then have "\<not> (R + pp) <s 0" using lo by (simp add: word_sless_alt)
  then have "inverse_norm pp (R + pp) = Some (R + pp)" by (subst inverse_norm.simps) simp
  then have "inverse_norm pp R = Some (R + pp)" using True by (subst inverse_norm.simps) simp
  moreover have "sint R mod uint pp = sint R + uint pp"
    using lo hi by (metis mod_add_self2 mod_pos_pos_trivial less_imp_le)
  ultimately show ?thesis using s by simp
qed

lemma prime_nat_coprime:
  assumes "prime_nat n" "0 < k" "k < n"
  shows "coprime n k"
proof (rule coprimeI)
  fix c assume c: "c dvd n" "c dvd k"
  from assms(1) c(1) have "c = 1 \<or> c = n" by (simp add: prime_nat_iff_divisors)
  moreover have "c \<noteq> n" using c(2) assms(2,3) by (auto dest: dvd_imp_le)
  ultimately show "is_unit c" by simp
qed

lemma uint_ucast_down_sint:
  fixes R :: "64 word"
  assumes "0 \<le> sint R" "sint R < 2 ^ 32"
  shows "uint (ucast R :: 32 word) = sint R"
proof -
  have "uint (ucast R :: 32 word) = take_bit 32 (take_bit 64 (sint R))"
    by (simp only: unsigned_ucast_eq uint_sint [of R]) simp
  also have "\<dots> = take_bit 32 (sint R)" by simp
  also have "\<dots> = sint R" using assms by (rule take_bit_int_eq_self)
  finally show ?thesis .
qed

lemma uint_ucast_up: "uint (ucast (w :: 32 word) :: 64 word) = uint w"
  by (simp add: uint_up_ucast is_up)

lemma ucast_up_down: "(ucast (ucast (w :: 32 word) :: 64 word) :: 32 word) = w"
  by (simp add: ucast_up_ucast_id is_up)

lemma inverse_correct_uint:
  fixes p32 y :: ulong
  assumes g: "gen_p g = ucast p32" and pr: "prime_nat (unat p32)" and y: "y \<noteq> 0" "y < p32"
  shows "\<exists>z. inverse g y = Some z \<and> 0 < uint z \<and> uint z < uint p32 \<and> (uint z * uint y) mod uint p32 = 1"
proof -
  define P where "P = uint p32"
  define Y where "Y = uint y"
  have P1: "1 < unat p32" using pr by (simp add: prime_nat_def)
  then have P1': "1 < P" unfolding P_def by (metis of_nat_1 of_nat_less_iff uint_nat)
  have "P < 2 ^ 32" unfolding P_def using uint_lt2p [of p32] by simp
  then have P63: "P < 2 ^ 63" by (rule less_le_trans) simp
  have P32: "P < 2 ^ 32" by fact
  have upp: "uint (gen_p g) = P" by (simp add: g P_def uint_ucast_up)
  show ?thesis
  proof (cases "y = 1")
    case True
    have "(1::ulong) < p32" using P1 by (simp add: word_less_nat_alt)
    moreover have "inverse g y = Some 1" using True by (simp add: inverse_def)
    ultimately show ?thesis using True P1' by (simp add: P_def word_less_def)
  next
    case False
    have ylt: "\<not> gen_p g \<le> ucast y"
      using y(2) by (simp add: g word_le_nat_alt word_less_nat_alt unat_ucast_up)
    have rn: "(ucast (gen_p g) :: ulong) = p32" by (simp add: g ucast_up_down)
    have ny: "0 < unat y" "unat y < unat p32"
      using y by (simp_all add: unat_gt_0 word_less_nat_alt)
    have cop: "coprime (unat p32) (unat y)" using pr ny by (rule prime_nat_coprime)
    have "\<not> unat y dvd unat p32"
    proof
      assume "unat y dvd unat p32"
      with pr have "unat y = 1 \<or> unat y = unat p32" by (simp add: prime_nat_iff_divisors)
      with ny False show False by (auto simp: word_unat_eq_iff)
    qed
    then have rn2: "p32 mod y \<noteq> 0"
      by (simp add: word_unat_eq_iff unat_mod dvd_eq_mod_eq_0)
    have "\<exists>R. inverse_loop p32 y (p32 mod y) 1 0 = Some R \<and> (sint R * Y) mod P = 1 \<and> 2 * \<bar>sint R\<bar> \<le> P"
    proof (rule inverse_loop_correct [OF P1' P63 y(1) y(2) cop rn2])
      show "sint (1::longlong) * Y mod P = uint y mod P" by (simp add: Y_def)
      show "sint (0::longlong) * Y mod P = uint p32 mod P" by (simp add: P_def)
      show "uint p32 * \<bar>sint (1::longlong)\<bar> + uint y * \<bar>sint (0::longlong)\<bar> \<le> P" by (simp add: P_def)
    qed
    then obtain R where R: "inverse_loop p32 y (p32 mod y) 1 0 = Some R"
      "(sint R * Y) mod P = 1" "2 * \<bar>sint R\<bar> \<le> P" by blast
    from R(3) P1' have Rlt: "\<bar>sint R\<bar> < uint (gen_p g)" unfolding upp by linarith
    have "uint (gen_p g) < 2 ^ 63" unfolding upp by (rule P63)
    from inverse_norm_correct [OF this Rlt]
    obtain R' where R': "inverse_norm (gen_p g) R = Some R'" "sint R' = sint R mod P"
      unfolding upp by blast
    have rng: "0 \<le> sint R'" "sint R' < P" using R'(2) P1' by simp_all
    then have "sint R' < 2 ^ 32" using P32 by linarith
    with rng have uz: "uint (ucast R' :: ulong) = sint R'" by (intro uint_ucast_down_sint)
    have ev: "inverse g y = Some (ucast R')"
      using y(1) False ylt R(1) R'(1) by (simp add: inverse_def rn Let_def)
    have "(sint R' * Y) mod P = (sint R * Y) mod P" unfolding R'(2) by (simp add: mod_mult_left_eq)
    then have one: "(sint R' * Y) mod P = 1" using R(2) by simp
    have "sint R' \<noteq> 0" using one P1' by auto
    with rng have "0 < sint R'" by simp
    with ev uz rng one show ?thesis by (auto simp: P_def Y_def)
  qed
qed

section \<open>The validity flag and the invariant of the generator\<close>

lemma fits_ulong_ucast: "fits_ulong (ucast (x :: ulong))"
  by (simp add: fits_ulong_def ucast_up_down)

lemma fits_ulongE:
  assumes "fits_ulong x"
  obtains x' :: ulong where "x = ucast x'"
  using assms unfolding fits_ulong_def by metis

lemma ucast_up_less_iff: "(ucast (x::ulong) :: ulonglong) < ucast y \<longleftrightarrow> x < y"
  by (simp add: word_less_nat_alt unat_ucast_up)

lemma ucast_up_le_iff: "(ucast (x::ulong) :: ulonglong) \<le> ucast y \<longleftrightarrow> x \<le> y"
  by (simp add: word_le_nat_alt unat_ucast_up)

lemma ucast_up_eq_iff: "(ucast (x::ulong) :: ulonglong) = ucast y \<longleftrightarrow> x = y"
  by (simp add: word_unat_eq_iff unat_ucast_up)

lemma ucast_up_3: "3 < (ucast (x::ulong) :: ulonglong) \<longleftrightarrow> 3 < x"
  using ucast_up_less_iff [of 3 x] by simp

lemma ucast_up_0: "(ucast (x::ulong) :: ulonglong) = 0 \<longleftrightarrow> x = 0"
  using ucast_up_eq_iff [of x 0] by simp

lemma checkGeneratorIsValid_fits:
  assumes "gen_p g = ucast p'" "gen_a g = ucast a'" "gen_b g = ucast b'" "seed g = ucast seed'"
  shows "checkGeneratorIsValid g = Some (g\<lparr>generatorIsValid := valid_params p' a' b' seed'\<rparr>)"
  by (simp add: checkGeneratorIsValid_def assms ucast_up_down isPrime_correct valid_params_def
      ucast_up_less_iff ucast_up_3)

lemma ICG_new_eq:
  "ICG_new storage p' a' b' seed' =
     Some (storage\<lparr>generatorIsValid := valid_params p' a' b' seed', gen_p := ucast p',
                   gen_a := ucast a', gen_b := ucast b', seed := ucast seed',
                   curRand := ucast seed'\<rparr>)"
  unfolding ICG_new_def
  by (subst checkGeneratorIsValid_fits [of _ p' a' b' seed']) simp_all

lemma reparametrize_eq:
  "reparametrize p' a' b' seed' g =
     Some (valid_params p' a' b' seed',
           g\<lparr>generatorIsValid := valid_params p' a' b' seed', gen_p := ucast p',
             gen_a := ucast a', gen_b := ucast b', seed := ucast seed',
             curRand := ucast seed'\<rparr>)"
  unfolding reparametrize_def
  by (subst checkGeneratorIsValid_fits [of _ p' a' b' seed']) simp_all

lemma reseed_eq:
  assumes "gen_p g = ucast p'" "gen_a g = ucast a'" "gen_b g = ucast b'"
  shows "reseed newSeed g =
     Some (valid_params p' a' b' newSeed,
           g\<lparr>generatorIsValid := valid_params p' a' b' newSeed, seed := ucast newSeed,
             curRand := ucast newSeed\<rparr>)"
  unfolding reseed_def
  by (subst checkGeneratorIsValid_fits [of _ p' a' b' newSeed]) (simp_all add: assms)

lemma valid_params_inv:
  assumes "valid_params p' a' b' seed'"
  shows "ICG_inv (g\<lparr>generatorIsValid := v, gen_p := ucast p',
                   gen_a := ucast a', gen_b := ucast b', seed := ucast seed',
                   curRand := ucast seed'\<rparr>)"
  using assms
  by (simp add: ICG_inv_def valid_params_def fits_ulong_ucast ucast_up_less_iff ucast_up_3 unat_ucast_up)

lemma invalid_inv:
  "ICG_inv (g\<lparr>generatorIsValid := False, gen_p := ucast (p'::ulong),
                   gen_a := ucast (a'::ulong), gen_b := ucast (b'::ulong), seed := ucast (seed'::ulong),
                   curRand := ucast seed'\<rparr>)"
  by (simp add: ICG_inv_def fits_ulong_ucast)

lemma ICG_new_inv: "ICG_new storage p' a' b' seed' = Some g \<Longrightarrow> ICG_inv g"
  using valid_params_inv [where p' = p' and a' = a' and b' = b' and seed' = seed' and g = storage and v = True]
    invalid_inv [where g = storage and p' = p' and a' = a' and b' = b' and seed' = seed']
  by (cases "valid_params p' a' b' seed'") (auto simp: ICG_new_eq)

section \<open>One step of the generator\<close>

lemma less_ucast_fits:
  fixes x :: ulonglong and p' :: ulong
  assumes "x < ucast p'"
  shows "fits_ulong x"
proof -
  have "unat x < unat p'" using assms by (simp add: word_less_nat_alt unat_ucast_up)
  moreover have "unat p' < 2 ^ 32" using unsigned_less [of p'] by simp
  ultimately have "unat x < 2 ^ 32" by simp
  then show ?thesis
    by (simp add: fits_ulong_def word_unat_eq_iff unat_ucast_up unat_ucast_down)
qed

lemma fits_ulong_unat: "fits_ulong x \<Longrightarrow> unat x < 2 ^ 32"
proof -
  assume "fits_ulong x"
  then obtain x' :: ulong where "x = ucast x'" by (rule fits_ulongE)
  then show ?thesis using unsigned_less [of x'] by (simp add: unat_ucast_up)
qed

lemma mult_add_exact:
  fixes a' i b' :: ulonglong
  assumes "unat a' < 2 ^ 32" "unat i < 2 ^ 32" "unat b' < 2 ^ 32"
  shows "unat (a' * i + b') = unat a' * unat i + unat b'"
proof -
  have le: "unat a' \<le> 4294967295" "unat i \<le> 4294967295" "unat b' \<le> 4294967295"
    using assms by simp_all
  have "unat a' * unat i \<le> 4294967295 * 4294967295"
    using le(1,2) by (rule mult_le_mono)
  with le(3) have lt: "unat a' * unat i + unat b' < 2 ^ 64" by simp
  then have "unat a' * unat i < 2 ^ 64" by simp
  then have "unat (a' * i) = unat a' * unat i" by (simp add: unat_word_ariths)
  with lt show ?thesis by (simp add: unat_word_ariths)
qed

lemma rand_invalid: "\<not> generatorIsValid g \<Longrightarrow> rand g = Some (0, g)"
  by (simp add: rand_def)

lemma rand_valid:
  assumes inv: "ICG_inv g" and v: "generatorIsValid g"
  shows "\<exists>r. rand g = Some (r, g\<lparr>curRand := ucast r\<rparr>) \<and> ucast r < gen_p g \<and>
           (if curRand g = 0 then ucast r = gen_b g
            else \<exists>i. inverse g (ucast (curRand g)) = Some i \<and>
                   0 < unat i \<and> unat i < unat (gen_p g) \<and>
                   (unat i * unat (curRand g)) mod unat (gen_p g) = 1 \<and>
                   unat (gen_a g * ucast i + gen_b g) = unat (gen_a g) * unat i + unat (gen_b g) \<and>
                   ucast r = (gen_a g * ucast i + gen_b g) mod gen_p g)"
proof -
  from inv obtain p' a' b' c' :: ulong
    where f: "gen_p g = ucast p'" "gen_a g = ucast a'" "gen_b g = ucast b'" "curRand g = ucast c'"
    unfolding ICG_inv_def by (metis fits_ulongE)
  from inv v have vp: "3 < gen_p g" "prime_nat (unat (gen_p g))" "gen_a g < gen_p g"
    "gen_b g < gen_p g" "curRand g < gen_p g"
    unfolding ICG_inv_def by simp_all
  show ?thesis
  proof (cases "curRand g = 0")
    case True
    then show ?thesis using v vp f by (simp add: rand_def ucast_up_down)
  next
    case False
    then have c0: "c' \<noteq> 0" using f by (simp add: ucast_up_0)
    have clt: "c' < p'" using vp(5) f by (simp add: ucast_up_less_iff)
    have pr: "prime_nat (unat p')" using vp(2) f by (simp add: unat_ucast_up)
    from inverse_correct_uint [OF f(1) pr c0 clt]
    obtain z where z: "inverse g c' = Some z" "0 < uint z" "uint z < uint p'"
      "(uint z * uint c') mod uint p' = 1" by blast
    have zn: "0 < unat z" "unat z < unat p'"
      using z(2,3) by (simp_all only: uint_nat of_nat_less_iff of_nat_0_less_iff)
    have "int ((unat z * unat c') mod unat p') = (uint z * uint c') mod uint p'"
      by (simp only: zmod_int of_nat_mult uint_nat)
    then have zc: "(unat z * unat c') mod unat p' = 1" using z(4) by simp
    define temp where "temp = (gen_a g * ucast z + gen_b g) mod gen_p g"
    have p0: "gen_p g \<noteq> 0" using vp(1) by auto
    then have "temp < gen_p g" unfolding temp_def by (simp add: word_mod_less_divisor word_neq_0_conv [symmetric])
    then have tf: "fits_ulong temp" unfolding f(1) by (rule less_ucast_fits)
    then have tt: "ucast (ucast temp :: ulong) = temp" by (simp add: fits_ulong_def)
    have ex: "unat (gen_a g * ucast z + gen_b g) = unat (gen_a g) * unat z + unat (gen_b g)"
    proof -
      have "unat (gen_a g) < 2 ^ 32" "unat (gen_b g) < 2 ^ 32"
        using inv by (auto simp: ICG_inv_def dest: fits_ulong_unat)
      moreover have "unat (ucast z :: ulonglong) < 2 ^ 32"
        using unsigned_less [of z] by (simp add: unat_ucast_up)
      ultimately show ?thesis
        using mult_add_exact [of "gen_a g" "ucast z" "gen_b g"] by (simp add: unat_ucast_up)
    qed
    have "rand g = Some (ucast temp, g\<lparr>curRand := temp\<rparr>)"
      using v False z(1) p0 by (simp add: rand_def f(4) ucast_up_down Let_def temp_def [symmetric] tt)
    then have r1: "rand g = Some (ucast temp, g\<lparr>curRand := ucast (ucast temp :: ulong)\<rparr>)"
      by (simp only: tt)
    have r2: "ucast (ucast temp :: ulong) < gen_p g" using \<open>temp < gen_p g\<close> by (simp only: tt)
    have r3: "inverse g (ucast (curRand g)) = Some z" using z(1) by (simp add: f(4) ucast_up_down)
    have r4: "(unat z * unat (curRand g)) mod unat (gen_p g) = 1"
      using zc by (simp add: f unat_ucast_up)
    have r5: "unat z < unat (gen_p g)" using zn by (simp add: f unat_ucast_up)
    have r6: "ucast (ucast temp :: ulong) = (gen_a g * ucast z + gen_b g) mod gen_p g"
      using tt by (simp only: temp_def)
    show ?thesis
      apply (rule exI [of _ "ucast temp"])
      apply (simp only: False if_False)
      apply (intro conjI exI [of _ z])
            apply (fact r1 r2 r3 zn(1) r5 r4 ex r6)+
      done
  qed
qed

lemma rand_inv:
  assumes "ICG_inv g" "rand g = Some (r, g')"
  shows "ICG_inv g'"
proof (cases "generatorIsValid g")
  case False
  with assms show ?thesis by (simp add: rand_invalid)
next
  case True
  from rand_valid [OF assms(1) True] assms(2)
  have g': "g' = g\<lparr>curRand := ucast r\<rparr>" and lt: "ucast r < gen_p g" by auto
  then show ?thesis using assms(1) True
    by (simp add: ICG_inv_def fits_ulong_ucast)
qed

lemma rand_total: "ICG_inv g \<Longrightarrow> \<exists>r g'. rand g = Some (r, g')"
  using rand_valid [of g] rand_invalid [of g]
  by (cases "generatorIsValid g") auto

lemma prime_nat_7: "prime_nat 7"
  by code_simp

lemma fits_ulong_le:
  fixes x :: ulonglong
  assumes "x \<le> 2 ^ 32 - 1"
  shows "fits_ulong x"
proof -
  have "unat x \<le> unat (2 ^ 32 - 1 :: ulonglong)" using assms by (simp only: word_le_nat_alt)
  then have "unat x < 2 ^ 32" by simp
  then show ?thesis
    by (simp add: fits_ulong_def word_unat_eq_iff unat_ucast_up unat_ucast_down)
qed

lemma valid_state_inv:
  assumes "valid_state g" "gen_p g \<le> 2 ^ 32 - 1"
  shows "ICG_inv g"
proof -
  have "x \<le> 2 ^ 32 - 1" if "x < gen_p g" for x using that assms(2) by simp
  then have "fits_ulong x" if "x < gen_p g" for x using that by (intro fits_ulong_le) 
  then show ?thesis using assms fits_ulong_le [of "gen_p g"]
    by (simp add: ICG_inv_def valid_state_def)
qed

lemma icg7_inv: "ICG_inv icg7"
  by (simp add: ICG_inv_def icg7_def fits_ulong_def prime_nat_7)

lemma ICG_new_icg7: "ICG_new zero_storage 7 3 2 1 = Some icg7"
  by (simp add: ICG_new_eq zero_storage_def icg7_def valid_params_def prime_nat_7)

text \<open>
  C1. One step of the generator. On an invalid generator \<^verbatim>\<open>rand ( )\<close> returns 0 and leaves
  the generator as it is. On a valid generator (the flag is set and the state satisfies
  \<open>ICG_inv\<close>, as every state built by the constructor and the operations does) with
  \<open>curRand = 0\<close> it stores \<open>b\<close> in \<open>curRand\<close> and returns it. Otherwise \<^verbatim>\<open>inverse\<close> returns the
  modular inverse \<open>i\<close> of \<open>curRand\<close> (\<open>0 < i < p\<close> and \<open>i * curRand mod p = 1\<close>), and the step
  stores and returns \<open>(a * i + b) mod p\<close>, which is also the value of that expression over the
  natural numbers. On a valid generator the call returns, the value returned is below \<open>p\<close>,
  and the generator stays valid.
\<close>

theorem rand_step:
  "(\<not> generatorIsValid g \<longrightarrow> rand g = Some (0, g)) \<and>
   (ICG_inv g \<and> generatorIsValid g \<and> curRand g = 0 \<longrightarrow>
      rand g = Some (ucast (gen_b g), g\<lparr>curRand := gen_b g\<rparr>)) \<and>
   (ICG_inv g \<and> generatorIsValid g \<and> curRand g \<noteq> 0 \<longrightarrow>
      (\<exists>i. inverse g (ucast (curRand g)) = Some i \<and>
           0 < unat i \<and> unat i < unat (gen_p g) \<and>
           (unat i * unat (curRand g)) mod unat (gen_p g) = 1 \<and>
           rand g = Some (ucast ((gen_a g * ucast i + gen_b g) mod gen_p g),
                          g\<lparr>curRand := (gen_a g * ucast i + gen_b g) mod gen_p g\<rparr>) \<and>
           unat ((gen_a g * ucast i + gen_b g) mod gen_p g) =
             (unat (gen_a g) * unat i + unat (gen_b g)) mod unat (gen_p g))) \<and>
   (ICG_inv g \<and> generatorIsValid g \<longrightarrow>
      (\<exists>r g'. rand g = Some (r, g') \<and> curRand g' = ucast r \<and> unat r < unat (gen_p g) \<and>
              ICG_inv g' \<and> generatorIsValid g'))"
proof (intro conjI impI)
  assume "\<not> generatorIsValid g"
  then show "rand g = Some (0, g)" by (rule rand_invalid)
next
  assume h: "ICG_inv g \<and> generatorIsValid g \<and> curRand g = 0"
  with rand_valid [of g] obtain r where "rand g = Some (r, g\<lparr>curRand := ucast r\<rparr>)" "ucast r = gen_b g"
    by auto
  then show "rand g = Some (ucast (gen_b g), g\<lparr>curRand := gen_b g\<rparr>)"
    by (metis ucast_up_down)
next
  assume h: "ICG_inv g \<and> generatorIsValid g \<and> curRand g \<noteq> 0"
  with rand_valid [of g] obtain r i where r: "rand g = Some (r, g\<lparr>curRand := ucast r\<rparr>)"
    "inverse g (ucast (curRand g)) = Some i" "0 < unat i" "unat i < unat (gen_p g)"
    "(unat i * unat (curRand g)) mod unat (gen_p g) = 1"
    "unat (gen_a g * ucast i + gen_b g) = unat (gen_a g) * unat i + unat (gen_b g)"
    "ucast r = (gen_a g * ucast i + gen_b g) mod gen_p g"
    by auto
  define t where "t = (gen_a g * ucast i + gen_b g) mod gen_p g"
  from r(7) have rt: "r = ucast t" unfolding t_def by (metis ucast_up_down)
  have st: "rand g = Some (ucast t, g\<lparr>curRand := t\<rparr>)"
    using r(1) r(7) rt by (simp add: t_def)
  have "unat t = unat (gen_a g * ucast i + gen_b g) mod unat (gen_p g)"
    unfolding t_def by (simp only: unat_mod)
  then have ut: "unat t = (unat (gen_a g) * unat i + unat (gen_b g)) mod unat (gen_p g)"
    by (simp only: r(6))
  show "\<exists>i. inverse g (ucast (curRand g)) = Some i \<and>
           0 < unat i \<and> unat i < unat (gen_p g) \<and>
           (unat i * unat (curRand g)) mod unat (gen_p g) = 1 \<and>
           rand g = Some (ucast ((gen_a g * ucast i + gen_b g) mod gen_p g),
                          g\<lparr>curRand := (gen_a g * ucast i + gen_b g) mod gen_p g\<rparr>) \<and>
           unat ((gen_a g * ucast i + gen_b g) mod gen_p g) =
             (unat (gen_a g) * unat i + unat (gen_b g)) mod unat (gen_p g)"
    apply (rule exI [of _ i])
    apply (intro conjI)
         apply (fact r(2) r(3) r(4) r(5))+
     apply (fact st [unfolded t_def])
    apply (fact ut [unfolded t_def])
    done
next
  assume h: "ICG_inv g \<and> generatorIsValid g"
  with rand_valid [of g] obtain r where r: "rand g = Some (r, g\<lparr>curRand := ucast r\<rparr>)"
    "ucast r < gen_p g" by auto
  have "unat r < unat (gen_p g)" using r(2) by (simp add: word_less_nat_alt unat_ucast_up)
  moreover have "ICG_inv (g\<lparr>curRand := ucast r\<rparr>)" using h r(1) by (auto intro: rand_inv)
  ultimately show "\<exists>r g'. rand g = Some (r, g') \<and> curRand g' = ucast r \<and> unat r < unat (gen_p g) \<and>
              ICG_inv g' \<and> generatorIsValid g'"
    using r(1) h by (intro exI [of _ r] exI [of _ "g\<lparr>curRand := ucast r\<rparr>"]) simp
qed

theorem rand_step_witness:
  "\<not> generatorIsValid zero_storage \<and> rand zero_storage = Some (0, zero_storage) \<and>
   ICG_inv (icg7\<lparr>curRand := 0\<rparr>) \<and> generatorIsValid (icg7\<lparr>curRand := 0\<rparr>) \<and>
   rand (icg7\<lparr>curRand := 0\<rparr>) = Some (2, icg7\<lparr>curRand := 2\<rparr>) \<and>
   ICG_inv icg7 \<and> generatorIsValid icg7 \<and> curRand icg7 \<noteq> 0 \<and>
   rand icg7 = Some (5, icg7\<lparr>curRand := 5\<rparr>) \<and>
   ICG_inv (icg7\<lparr>curRand := 5\<rparr>) \<and> generatorIsValid (icg7\<lparr>curRand := 5\<rparr>) \<and>
   curRand (icg7\<lparr>curRand := 5\<rparr>) \<noteq> 0 \<and>
   inverse (icg7\<lparr>curRand := 5\<rparr>) 5 = Some 3 \<and>
   rand (icg7\<lparr>curRand := 5\<rparr>) = Some (4, icg7\<lparr>curRand := 4\<rparr>)"
proof -
  have i0: "ICG_inv (icg7\<lparr>curRand := 0\<rparr>)" and i5: "ICG_inv (icg7\<lparr>curRand := 5\<rparr>)"
    by (simp_all add: ICG_inv_def icg7_def fits_ulong_def prime_nat_7)
  have c: "curRand (icg7\<lparr>curRand := 5\<rparr>) = 5" "curRand icg7 = 1"
    "generatorIsValid (icg7\<lparr>curRand := 5\<rparr>)" "generatorIsValid icg7"
    "generatorIsValid (icg7\<lparr>curRand := 0\<rparr>)"
    by (simp_all add: icg7_def)
  have inv1: "inverse icg7 1 = Some 1"
    by (simp add: inverse_def)
  have inv5: "inverse (icg7\<lparr>curRand := 5\<rparr>) 5 = Some 3"
    unfolding icg7_def by code_simp
  have nv: "\<not> generatorIsValid zero_storage" by (simp add: zero_storage_def)
  have s0: "rand zero_storage = Some (0, zero_storage)"
    using rand_step [of zero_storage] nv by blast
  have sb: "rand (icg7\<lparr>curRand := 0\<rparr>) = Some (2, icg7\<lparr>curRand := 2\<rparr>)"
    using rand_step [of "icg7\<lparr>curRand := 0\<rparr>"] i0 c(5) by (simp add: icg7_def)
  have s1: "rand icg7 = Some (5, icg7\<lparr>curRand := 5\<rparr>)"
    using rand_step [of icg7] icg7_inv c(2,4) inv1 by (simp add: icg7_def)
  have s5: "rand (icg7\<lparr>curRand := 5\<rparr>) = Some (4, icg7\<lparr>curRand := 4\<rparr>)"
    using rand_step [of "icg7\<lparr>curRand := 5\<rparr>"] i5 c(1,3) inv5 by (simp add: icg7_def)
  show ?thesis using nv s0 i0 sb icg7_inv s1 i5 inv5 s5 c by simp
qed

section \<open>The modular inverse over the natural numbers\<close>

lemma inverse_correct_nat:
  fixes p32 y :: ulong
  assumes g: "gen_p g = ucast p32" and pr: "prime_nat (unat p32)" and y: "y \<noteq> 0" "y < p32"
  shows "\<exists>z. inverse g y = Some z \<and> 1 \<le> z \<and> z < p32 \<and> (unat y * unat z) mod unat p32 = 1"
proof -
  from inverse_correct_uint [OF assms]
  obtain z where z: "inverse g y = Some z" "0 < uint z" "uint z < uint p32"
    "(uint z * uint y) mod uint p32 = 1" by blast
  have zn: "0 < unat z" "unat z < unat p32"
    using z(2,3) by (simp_all only: uint_nat of_nat_less_iff of_nat_0_less_iff)
  have "int ((unat z * unat y) mod unat p32) = (uint z * uint y) mod uint p32"
    by (simp only: zmod_int of_nat_mult uint_nat)
  then have "(unat z * unat y) mod unat p32 = 1" using z(4) by simp
  then have "(unat y * unat z) mod unat p32 = 1" by (simp add: mult.commute)
  moreover have "1 \<le> z" "z < p32"
    using zn by (simp_all add: word_le_nat_alt word_less_nat_alt)
  ultimately show ?thesis using z(1) by blast
qed

lemma modular_inverse_unique:
  fixes n y z z' :: nat
  assumes "(y * z) mod n = 1" "(y * z') mod n = 1" "z < n" "z' < n"
  shows "z' = z"
proof -
  have "z' mod n = (z' * ((y * z) mod n)) mod n" using assms(1) by simp
  also have "\<dots> = (z' * (y * z)) mod n" by (simp add: mod_mult_right_eq)
  also have "z' * (y * z) = (y * z') * z" by (simp add: mult.commute mult.left_commute)
  also have "((y * z') * z) mod n = (((y * z') mod n) * z) mod n"
    by (simp add: mod_mult_left_eq)
  also have "\<dots> = z mod n" using assms(2) by simp
  finally show ?thesis using assms(3,4) by simp
qed

text \<open>
  C2. The modular inverse. Let the generator's modulus be a prime \<open>p \<ge> 5\<close> held in an
  \<^verbatim>\<open>unsigned long\<close>. For \<open>1 \<le> y < p\<close>, \<^verbatim>\<open>inverse ( y )\<close> returns a \<open>z\<close> with \<open>1 \<le> z < p\<close> and
  \<open>y * z mod p = 1\<close>, and no other number in \<open>[1, p)\<close> has that property. Out of contract,
  \<^verbatim>\<open>inverse ( 0 )\<close> is 0, \<^verbatim>\<open>inverse ( 1 )\<close> is 1 and \<^verbatim>\<open>inverse ( y )\<close> is 0 for \<open>y \<ge> p\<close>. For
  every \<open>y\<close> the call returns, and the value returned is below \<open>p\<close>.
\<close>

theorem inverse_modular_inverse:
  fixes p32 :: ulong
  assumes "gen_p g = ucast p32" and "prime_nat (unat p32)" and "5 \<le> p32"
  shows "(1 \<le> y \<and> y < p32 \<longrightarrow>
            (\<exists>z. inverse g y = Some z \<and> 1 \<le> z \<and> z < p32 \<and>
                 (unat y * unat z) mod unat p32 = 1 \<and>
                 (\<forall>z'. 1 \<le> z' \<and> z' < unat p32 \<and> (unat y * z') mod unat p32 = 1
                        \<longrightarrow> z' = unat z))) \<and>
         inverse g 0 = Some 0 \<and> inverse g 1 = Some 1 \<and>
         (p32 \<le> y \<longrightarrow> inverse g y = Some 0) \<and>
         (\<exists>z. inverse g y = Some z \<and> z < p32)"
proof -
  have p5: "5 \<le> unat p32" using assms(3) by (simp add: word_le_nat_alt)
  then have p1: "1 < p32" "0 < p32" by (simp_all add: word_less_nat_alt)
  have in_contract: "\<exists>z. inverse g y = Some z \<and> 1 \<le> z \<and> z < p32 \<and>
                 (unat y * unat z) mod unat p32 = 1 \<and>
                 (\<forall>z'. 1 \<le> z' \<and> z' < unat p32 \<and> (unat y * z') mod unat p32 = 1
                        \<longrightarrow> z' = unat z)"
    if y: "1 \<le> y" "y < p32" for y
  proof -
    have "y \<noteq> 0" using y(1) by auto
    from inverse_correct_nat [OF assms(1,2) this y(2)]
    obtain z where z: "inverse g y = Some z" "1 \<le> z" "z < p32"
      "(unat y * unat z) mod unat p32 = 1" by blast
    have "z' = unat z" if "z' < unat p32" "(unat y * z') mod unat p32 = 1" for z'
      using modular_inverse_unique [OF z(4) that(2) _ that(1)] z(3)
      by (simp add: word_less_nat_alt)
    with z show ?thesis by blast
  qed
  have zero: "inverse g 0 = Some 0" by (simp add: inverse_def)
  have one: "inverse g 1 = Some 1" by (simp add: inverse_def)
  have big: "inverse g y = Some 0" if "p32 \<le> y" for y
  proof -
    have "y \<noteq> 1" using that p1 by auto
    moreover have "gen_p g \<le> ucast y" using that by (simp add: assms(1) ucast_up_le_iff)
    ultimately show ?thesis by (simp add: inverse_def)
  qed
  have total: "\<exists>z. inverse g y = Some z \<and> z < p32"
  proof (cases "y = 0 \<or> p32 \<le> y")
    case True
    then show ?thesis using zero big p1 by auto
  next
    case False
    then have "1 \<le> y" "y < p32" by (simp_all add: word_le_nat_alt word_less_nat_alt unat_gt_0 Suc_le_eq not_le)
    from in_contract [OF this] show ?thesis by blast
  qed
  show ?thesis using in_contract [of y] zero one big [of y] total by blast
qed

theorem inverse_modular_inverse_witness:
  "gen_p icg7 = ucast (7 :: ulong) \<and> prime_nat (unat (7 :: ulong)) \<and> (5 :: ulong) \<le> 7 \<and>
   (1 :: ulong) \<le> 5 \<and> (5 :: ulong) < 7 \<and> (7 :: ulong) \<le> 9 \<and>
   inverse icg7 5 = Some 3 \<and> inverse icg7 9 = Some 0 \<and> inverse icg7 0 = Some 0 \<and>
   inverse icg7 1 = Some 1"
proof -
  have h: "gen_p icg7 = ucast (7 :: ulong)" "prime_nat (unat (7 :: ulong))" "(5 :: ulong) \<le> 7"
    by (simp_all add: icg7_def prime_nat_7)
  from inverse_modular_inverse [OF h, of 5]
  obtain z where z: "inverse icg7 5 = Some z" "1 \<le> z" "z < 7"
    "\<forall>z'. 1 \<le> z' \<and> z' < unat (7 :: ulong) \<and> (unat (5 :: ulong) * z') mod unat (7 :: ulong) = 1 \<longrightarrow> z' = unat z"
    by auto
  from z(4) have "3 = unat z" by simp
  then have "z = 3" by (simp add: word_unat_eq_iff)
  with z(1) h inverse_modular_inverse [OF h, of 9] show ?thesis by simp
qed

section \<open>The primality test and the validity predicate\<close>

lemma no_divisor_from_3_iff:
  "no_divisor_from n 3 m \<longleftrightarrow> (\<forall>d. odd d \<and> 3 \<le> d \<and> d \<le> m \<longrightarrow> \<not> d dvd n)"
proof
  assume h: "no_divisor_from n 3 m"
  show "\<forall>d. odd d \<and> 3 \<le> d \<and> d \<le> m \<longrightarrow> \<not> d dvd n"
  proof (intro allI impI)
    fix d assume d: "odd d \<and> 3 \<le> d \<and> d \<le> m"
    then obtain j where j: "d = 2 * j + 1" by (auto elim: oddE)
    with d have "d = 3 + 2 * (j - 1)" by arith
    with h d show "\<not> d dvd n" unfolding no_divisor_from_def by metis
  qed
next
  assume h: "\<forall>d. odd d \<and> 3 \<le> d \<and> d \<le> m \<longrightarrow> \<not> d dvd n"
  show "no_divisor_from n 3 m"
    unfolding no_divisor_from_def
  proof (intro allI impI)
    fix k assume "3 + 2 * k \<le> m"
    moreover have "odd (3 + 2 * k)" by simp
    ultimately show "\<not> (3 + 2 * k) dvd n" using h by simp
  qed
qed

lemma isPrime_odd:
  assumes "3 < n" "odd (unat n)"
  shows "isPrime n = Some (no_divisor_from (unat n) 3 (nat \<lfloor>sqrt (real (unat n))\<rfloor>))"
proof -
  have n: "n \<noteq> 0" "n \<noteq> 1" "n \<noteq> 2" "n \<noteq> 3" using assms(1) by auto
  have "unat (n mod 2) = unat n mod 2" by (simp add: unat_mod)
  with assms(2) have "n mod 2 \<noteq> 0" by (auto simp: word_unat_eq_iff odd_iff_mod_2_eq_one)
  with n have "isPrime n = isPrime_loop n 3 (sqrt_ulong n)" by (simp add: isPrime_def)
  also have "\<dots> = Some (no_divisor_from (unat n) (unat (3::ulong)) (unat (sqrt_ulong n)))"
    by (rule isPrime_loop_correct) (simp_all add: sqrt_ulong_bounds)
  finally show ?thesis by (simp add: unat_sqrt_ulong)
qed

lemma isPrime_even:
  assumes "n \<noteq> 2" "even (unat n)"
  shows "isPrime n = Some False"
proof -
  have "unat (n mod 2) = unat n mod 2" by (simp add: unat_mod)
  with assms(2) have "n mod 2 = 0" by (auto simp: word_unat_eq_iff even_iff_mod_2_eq_zero)
  moreover have "n \<noteq> 3" "n \<noteq> 1" using assms(2) by auto
  ultimately show ?thesis using assms(1) by (simp add: isPrime_def)
qed

text \<open>
  C5. The primality test and the validity predicate. \<^verbatim>\<open>isPrime\<close> is false for 0 and 1, true for
  2 and 3, false for every other even number, and for an odd \<open>n > 3\<close> it is true exactly when no
  odd \<open>d\<close> with \<open>3 \<le> d \<le> \<lfloor>sqrt n\<rfloor>\<close> divides \<open>n\<close>; for every \<open>n\<close> it returns whether \<open>n\<close> is prime.
  The flag computed by the constructor, by \<^verbatim>\<open>reparametrize\<close> and by \<^verbatim>\<open>reseed\<close> is
  \<open>p > 3 \<and> prime p \<and> a < p \<and> b < p \<and> seed < p\<close> of the parameters then stored
  (for \<^verbatim>\<open>reseed\<close>: of the stored \<open>p, a, b\<close>, which hold \<^verbatim>\<open>unsigned long\<close> values, and the new
  seed).
\<close>

theorem validity_predicate:
  "isPrime 0 = Some False \<and> isPrime 1 = Some False \<and> isPrime 2 = Some True \<and>
   isPrime 3 = Some True \<and>
   (n \<noteq> 2 \<and> even (unat n) \<longrightarrow> isPrime n = Some False) \<and>
   (3 < n \<and> odd (unat n) \<longrightarrow>
      isPrime n = Some (\<forall>d. odd d \<and> 3 \<le> d \<and> d \<le> nat \<lfloor>sqrt (real (unat n))\<rfloor>
                            \<longrightarrow> \<not> d dvd unat n)) \<and>
   isPrime n = Some (prime_nat (unat n)) \<and>
   ICG_new storage p' a' b' seed' =
     Some (storage\<lparr>generatorIsValid := valid_params p' a' b' seed', gen_p := ucast p',
                   gen_a := ucast a', gen_b := ucast b', seed := ucast seed',
                   curRand := ucast seed'\<rparr>) \<and>
   reparametrize p' a' b' seed' g =
     Some (valid_params p' a' b' seed',
           g\<lparr>generatorIsValid := valid_params p' a' b' seed', gen_p := ucast p',
             gen_a := ucast a', gen_b := ucast b', seed := ucast seed',
             curRand := ucast seed'\<rparr>) \<and>
   (gen_p g = ucast p' \<and> gen_a g = ucast a' \<and> gen_b g = ucast b' \<longrightarrow>
      reseed seed' g =
        Some (valid_params p' a' b' seed',
              g\<lparr>generatorIsValid := valid_params p' a' b' seed', seed := ucast seed',
                curRand := ucast seed'\<rparr>))"
proof -
  have small: "isPrime 0 = Some False" "isPrime 1 = Some False" "isPrime 2 = Some True"
    "isPrime 3 = Some True"
    by (simp_all add: isPrime_def)
  have odd: "isPrime n = Some (\<forall>d. odd d \<and> 3 \<le> d \<and> d \<le> nat \<lfloor>sqrt (real (unat n))\<rfloor>
                            \<longrightarrow> \<not> d dvd unat n)" if "3 < n \<and> odd (unat n)"
  proof -
    from that have "3 < n" "odd (unat n)" by simp_all
    from isPrime_odd [OF this] show ?thesis by (simp only: no_divisor_from_3_iff)
  qed
  show ?thesis
    using small isPrime_even [of n] odd isPrime_correct [of n]
      ICG_new_eq [of storage p' a' b' seed'] reparametrize_eq [of p' a' b' seed' g]
      reseed_eq [of g p' a' b' seed']
    by blast
qed

theorem validity_predicate_witness:
  "(8 :: ulong) \<noteq> 2 \<and> even (unat (8 :: ulong)) \<and> isPrime 8 = Some False \<and>
   (3 :: ulong) < 9 \<and> odd (unat (9 :: ulong)) \<and> isPrime 9 = Some False \<and>
   isPrime 7 = Some True \<and>
   gen_p icg7 = ucast (7 :: ulong) \<and> gen_a icg7 = ucast (3 :: ulong) \<and>
   gen_b icg7 = ucast (2 :: ulong) \<and>
   reseed 9 icg7 = Some (False, icg7\<lparr>generatorIsValid := False, seed := 9, curRand := 9\<rparr>) \<and>
   reseed 4 icg7 = Some (True, icg7\<lparr>seed := 4, curRand := 4\<rparr>) \<and>
   ICG_new zero_storage 9 0 0 0 = Some (zero_storage\<lparr>gen_p := 9\<rparr>)"
proof -
  have np: "\<not> prime_nat 9" "\<not> prime_nat 8" by code_simp+
  have f: "gen_p icg7 = ucast (7 :: ulong)" "gen_a icg7 = ucast (3 :: ulong)"
    "gen_b icg7 = ucast (2 :: ulong)"
    by (simp_all add: icg7_def)
  have v: "\<not> valid_params 7 3 2 9" "valid_params 7 3 2 4" "\<not> valid_params 9 0 0 0"
    by (simp_all add: valid_params_def prime_nat_7 np)
  have e: "(8 :: ulong) \<noteq> 2 \<and> even (unat (8 :: ulong))" "(3 :: ulong) < 9 \<and> odd (unat (9 :: ulong))"
    by simp_all
  have 1: "isPrime 8 = Some False \<and> ICG_new zero_storage 9 0 0 0 = Some (zero_storage\<lparr>gen_p := 9\<rparr>)"
    using validity_predicate [of 8 zero_storage 9 0 0 0 icg7] e(1) v(3)
    by (simp add: zero_storage_def)
  have 2: "isPrime 9 = Some False \<and>
     reseed 9 icg7 = Some (False, icg7\<lparr>generatorIsValid := False, seed := 9, curRand := 9\<rparr>)"
    using validity_predicate [of 9 zero_storage 7 3 2 9 icg7] np(1) f v(1) e(2)
    by simp (rule exI [of _ 3], simp)
  have 3: "isPrime 7 = Some True \<and> reseed 4 icg7 = Some (True, icg7\<lparr>seed := 4, curRand := 4\<rparr>)"
  proof -
    have "isPrime 7 = Some (prime_nat (unat (7 :: ulong)))"
      using validity_predicate [of 7 zero_storage 7 3 2 4 icg7] by blast
    moreover have "reseed 4 icg7 =
        Some (valid_params 7 3 2 4,
              icg7\<lparr>generatorIsValid := valid_params 7 3 2 4, seed := ucast (4 :: ulong),
                curRand := ucast (4 :: ulong)\<rparr>)"
      using validity_predicate [of 7 zero_storage 7 3 2 4 icg7] f by blast
    ultimately show ?thesis using v(2) by (simp add: prime_nat_7) (simp add: icg7_def)
  qed
  show ?thesis using 1 2 3 e f by simp
qed

section \<open>Exactness of the 64-bit product\<close>

text \<open>
  C7. The product in \<^verbatim>\<open>rand ( )\<close> does not wrap. On a valid generator (the flag is set and
  the parameters satisfy the validity predicate, with \<open>curRand < p\<close>) whose modulus is at most
  \<open>2 ^ 32 - 1\<close> and with \<open>curRand \<noteq> 0\<close>, \<^verbatim>\<open>inverse\<close> returns the modular inverse \<open>i\<close> of
  \<open>curRand\<close>, the 64-bit value \<open>a * i + b\<close> is the mathematical one (it is below \<open>2 ^ 64\<close>),
  and the step returns \<open>(a * i + b) mod p\<close> computed over the natural numbers.
\<close>

theorem rand_product_exact:
  assumes "valid_state g" and "gen_p g \<le> 2 ^ 32 - 1" and "curRand g \<noteq> 0"
  shows "\<exists>i r g'. inverse g (ucast (curRand g)) = Some i \<and> unat i < unat (gen_p g) \<and>
           (unat i * unat (curRand g)) mod unat (gen_p g) = 1 \<and>
           unat (gen_a g * ucast i + gen_b g) = unat (gen_a g) * unat i + unat (gen_b g) \<and>
           unat (gen_a g) * unat i + unat (gen_b g) < 2 ^ 64 \<and>
           rand g = Some (r, g') \<and> curRand g' = ucast r \<and>
           unat r = (unat (gen_a g) * unat i + unat (gen_b g)) mod unat (gen_p g)"
proof -
  have inv: "ICG_inv g" using assms(1,2) by (rule valid_state_inv)
  have v: "generatorIsValid g" using assms(1) by (simp add: valid_state_def)
  from rand_valid [OF inv v] assms(3)
  obtain r i where r: "rand g = Some (r, g\<lparr>curRand := ucast r\<rparr>)"
    "inverse g (ucast (curRand g)) = Some i" "unat i < unat (gen_p g)"
    "(unat i * unat (curRand g)) mod unat (gen_p g) = 1"
    "unat (gen_a g * ucast i + gen_b g) = unat (gen_a g) * unat i + unat (gen_b g)"
    "ucast r = (gen_a g * ucast i + gen_b g) mod gen_p g"
    by auto
  have "unat r = unat (ucast r :: ulonglong)" by (simp add: unat_ucast_up)
  also have "\<dots> = unat (gen_a g * ucast i + gen_b g) mod unat (gen_p g)"
    by (simp only: r(6) unat_mod)
  finally have ur: "unat r = (unat (gen_a g) * unat i + unat (gen_b g)) mod unat (gen_p g)"
    by (simp only: r(5))
  have "unat (gen_a g * ucast i + gen_b g) < 2 ^ 64"
    using unsigned_less [of "gen_a g * ucast i + gen_b g"] by simp
  then have lt: "unat (gen_a g) * unat i + unat (gen_b g) < 2 ^ 64" by (simp only: r(5))
  show ?thesis
    apply (rule exI [of _ i], rule exI [of _ r], rule exI [of _ "g\<lparr>curRand := ucast r\<rparr>"])
    apply (intro conjI)
           apply (fact r(2) r(3) r(4) r(5) lt r(1))+
     apply simp
    apply (fact ur)
    done
qed

theorem rand_product_exact_witness:
  "valid_state icg7 \<and> gen_p icg7 \<le> 2 ^ 32 - 1 \<and> curRand icg7 \<noteq> 0 \<and>
   (\<exists>i r g'. inverse icg7 (ucast (curRand icg7)) = Some i \<and>
      unat (gen_a icg7 * ucast i + gen_b icg7) = unat (gen_a icg7) * unat i + unat (gen_b icg7) \<and>
      rand icg7 = Some (r, g') \<and>
      unat r = (unat (gen_a icg7) * unat i + unat (gen_b icg7)) mod unat (gen_p icg7))"
proof -
  have h: "valid_state icg7" "gen_p icg7 \<le> 2 ^ 32 - 1" "curRand icg7 \<noteq> 0"
    by (simp_all add: valid_state_def icg7_def prime_nat_7)
  from rand_product_exact [OF h] h show ?thesis by blast
qed

section \<open>Reseeding\<close>

lemma inverse_same_p: "gen_p g = gen_p h \<Longrightarrow> inverse g y = inverse h y"
  by (simp add: inverse_def)

lemma rand_same_stream:
  assumes "same_stream g h" and "rand g = Some (r, g')"
  shows "\<exists>h'. rand h = Some (r, h') \<and> same_stream g' h'"
proof -
  have i: "inverse g y = inverse h y" for y
    using assms(1) by (intro inverse_same_p) (simp add: same_stream_def)
  show ?thesis
    using assms unfolding rand_def same_stream_def i
    by (auto simp: Let_def split: if_splits Option.bind_splits)
qed

lemma rand_seq_same_stream:
  "same_stream g h \<Longrightarrow> rand_seq n g = Some (rs, g') \<Longrightarrow>
     \<exists>h'. rand_seq n h = Some (rs, h') \<and> same_stream g' h'"
proof (induction n arbitrary: g h rs g')
  case 0
  then show ?case by simp
next
  case (Suc n)
  from Suc.prems(2) obtain r g1 rs1 where
    s: "rand g = Some (r, g1)" "rand_seq n g1 = Some (rs1, g')" "rs = r # rs1"
    by (auto split: Option.bind_splits)
  from rand_same_stream [OF Suc.prems(1) s(1)]
  obtain h1 where h1: "rand h = Some (r, h1)" "same_stream g1 h1" by blast
  from Suc.IH [OF h1(2) s(2)]
  obtain h' where "rand_seq n h1 = Some (rs1, h')" "same_stream g' h'" by blast
  with h1 s(3) show ?case by simp
qed

lemma rand_seq_total:
  "ICG_inv g \<Longrightarrow> \<exists>rs g'. rand_seq n g = Some (rs, g')"
proof (induction n arbitrary: g)
  case 0
  then show ?case by simp
next
  case (Suc n)
  from rand_total [OF Suc.prems] obtain r g1 where r: "rand g = Some (r, g1)" by blast
  with Suc.prems have "ICG_inv g1" by (rule rand_inv)
  from Suc.IH [OF this] obtain rs g' where "rand_seq n g1 = Some (rs, g')" by blast
  with r show ?case by simp
qed

lemma reseed_inv:
  assumes "ICG_inv g" and "reseed s g = Some (v, g')"
  shows "ICG_inv g'"
proof -
  from assms(1) obtain p' a' b' :: ulong
    where f: "gen_p g = ucast p'" "gen_a g = ucast a'" "gen_b g = ucast b'"
    unfolding ICG_inv_def by (metis fits_ulongE)
  have g': "g' = g\<lparr>generatorIsValid := valid_params p' a' b' s, seed := ucast s, curRand := ucast s\<rparr>"
    using assms(2) reseed_eq [OF f, of s] by auto
  show ?thesis
    unfolding g' using f
    by (simp add: ICG_inv_def valid_params_def fits_ulong_ucast ucast_up_less_iff ucast_up_3
        unat_ucast_up)
qed

lemma reparametrize_inv:
  assumes "reparametrize p' a' b' seed' g = Some (v, g')"
  shows "ICG_inv g'"
  using assms valid_params_inv [where p' = p' and a' = a' and b' = b' and seed' = seed'
      and g = g and v = True]
    invalid_inv [where p' = p' and a' = a' and b' = b' and seed' = seed' and g = g]
  by (cases "valid_params p' a' b' seed'") (auto simp: reparametrize_eq)

lemma rand_params:
  assumes "rand g = Some (r, g')"
  shows "gen_p g' = gen_p g \<and> gen_a g' = gen_a g \<and> gen_b g' = gen_b g \<and> seed g' = seed g"
  using assms unfolding rand_def
  by (auto simp: Let_def split: if_splits Option.bind_splits)

lemma rand_seq_params:
  "rand_seq m g = Some (rs, g') \<Longrightarrow>
     gen_p g' = gen_p g \<and> gen_a g' = gen_a g \<and> gen_b g' = gen_b g \<and> seed g' = seed g"
proof (induction m arbitrary: g rs)
  case 0
  then show ?case by simp
next
  case (Suc m)
  from Suc.prems obtain r g1 rs1 where
    s: "rand g = Some (r, g1)" "rand_seq m g1 = Some (rs1, g')"
    by (auto split: Option.bind_splits)
  from rand_params [OF s(1)] Suc.IH [OF s(2)] show ?case by simp
qed

text \<open>
  C8. Reseed restart. Take any generator whose stored parameters are \<open>(p, a, b)\<close>, in whatever
  state it is (whatever its flag, seed, \<open>curRand\<close> and cached spare), and reseed it to \<open>s\<close>;
  take a second generator freshly constructed with \<open>(p, a, b, s)\<close>. The reseed and the
  construction return, the reseed returns the validity of the fresh generator, and for every
  \<open>n\<close> the first \<open>n\<close> calls of \<^verbatim>\<open>rand ( )\<close> return on both and return the same values. The
  generators this applies to include every one constructed with \<open>(p, a, b, seed0)\<close> and
  stepped any number of times since.
\<close>

theorem reseed_restart:
  "(gen_p g = ucast p' \<and> gen_a g = ucast a' \<and> gen_b g = ucast b' \<longrightarrow>
      (\<exists>v g1 g2 rs h1 h2.
         reseed s g = Some (v, g1) \<and> ICG_new storage' p' a' b' s = Some g2 \<and>
         v = generatorIsValid g2 \<and>
         rand_seq n g1 = Some (rs, h1) \<and> rand_seq n g2 = Some (rs, h2))) \<and>
   (\<exists>g0. ICG_new storage p' a' b' seed0 = Some g0 \<and>
         (\<forall>m rs0 gm. rand_seq m g0 = Some (rs0, gm) \<longrightarrow>
            gen_p gm = ucast p' \<and> gen_a gm = ucast a' \<and> gen_b gm = ucast b'))"
proof (intro conjI impI)
  assume f: "gen_p g = ucast p' \<and> gen_a g = ucast a' \<and> gen_b g = ucast b'"
  define g1 where "g1 = g\<lparr>generatorIsValid := valid_params p' a' b' s, seed := ucast s,
                   curRand := ucast s\<rparr>"
  define g2 where "g2 = storage'\<lparr>generatorIsValid := valid_params p' a' b' s, gen_p := ucast p',
                   gen_a := ucast a', gen_b := ucast b', seed := ucast s,
                   curRand := ucast s\<rparr>"
  have c2: "ICG_new storage' p' a' b' s = Some g2" unfolding g2_def by (rule ICG_new_eq)
  have c1: "reseed s g = Some (valid_params p' a' b' s, g1)"
    unfolding g1_def by (rule reseed_eq) (simp_all add: f)
  have "ICG_inv g2" using c2 by (rule ICG_new_inv)
  from rand_seq_total [OF this, of n] obtain rs h2 where r2: "rand_seq n g2 = Some (rs, h2)"
    by blast
  have "same_stream g2 g1" by (simp add: same_stream_def g1_def g2_def f)
  from rand_seq_same_stream [OF this r2] obtain h1 where r1: "rand_seq n g1 = Some (rs, h1)"
    by blast
  have "valid_params p' a' b' s = generatorIsValid g2" by (simp add: g2_def)
  with c1 c2 r1 r2
  show "\<exists>v g1 g2 rs h1 h2.
         reseed s g = Some (v, g1) \<and> ICG_new storage' p' a' b' s = Some g2 \<and>
         v = generatorIsValid g2 \<and>
         rand_seq n g1 = Some (rs, h1) \<and> rand_seq n g2 = Some (rs, h2)"
    by blast
next
  define g0 where "g0 = storage\<lparr>generatorIsValid := valid_params p' a' b' seed0, gen_p := ucast p',
                   gen_a := ucast a', gen_b := ucast b', seed := ucast seed0,
                   curRand := ucast seed0\<rparr>"
  have c0: "ICG_new storage p' a' b' seed0 = Some g0" unfolding g0_def by (rule ICG_new_eq)
  have "gen_p gm = ucast p' \<and> gen_a gm = ucast a' \<and> gen_b gm = ucast b'"
    if "rand_seq m g0 = Some (rs0, gm)" for m rs0 gm
    using rand_seq_params [OF that] by (simp add: g0_def)
  with c0 show "\<exists>g0. ICG_new storage p' a' b' seed0 = Some g0 \<and>
         (\<forall>m rs0 gm. rand_seq m g0 = Some (rs0, gm) \<longrightarrow>
            gen_p gm = ucast p' \<and> gen_a gm = ucast a' \<and> gen_b gm = ucast b')"
    by blast
qed

theorem reseed_restart_witness:
  "ICG_new zero_storage 7 3 2 1 = Some icg7 \<and>
   rand_seq 2 icg7 = Some ([5, 4], icg7\<lparr>curRand := 4\<rparr>) \<and>
   gen_p (icg7\<lparr>curRand := 4\<rparr>) = ucast (7 :: ulong) \<and>
   gen_a (icg7\<lparr>curRand := 4\<rparr>) = ucast (3 :: ulong) \<and>
   gen_b (icg7\<lparr>curRand := 4\<rparr>) = ucast (2 :: ulong) \<and>
   reseed 2 (icg7\<lparr>curRand := 4\<rparr>) = Some (True, icg7\<lparr>seed := 2, curRand := 2\<rparr>) \<and>
   ICG_new zero_storage 7 3 2 2 = Some (icg7\<lparr>seed := 2, curRand := 2\<rparr>) \<and>
   map_option fst (rand_seq 4 (icg7\<lparr>seed := 2, curRand := 2\<rparr>)) = Some [0, 2, 0, 2]"
proof -
  have s2: "rand_seq 2 icg7 = Some ([5, 4], icg7\<lparr>curRand := 4\<rparr>)"
    unfolding icg7_def by code_simp
  from reseed_restart [of icg7 7 3 2 1 zero_storage 2 zero_storage 1]
  have "\<forall>m rs0 gm. rand_seq m icg7 = Some (rs0, gm) \<longrightarrow>
          gen_p gm = ucast (7 :: ulong) \<and> gen_a gm = ucast (3 :: ulong) \<and> gen_b gm = ucast (2 :: ulong)"
    by (simp add: ICG_new_icg7)
  with s2 have f: "gen_p (icg7\<lparr>curRand := 4\<rparr>) = ucast (7 :: ulong) \<and>
           gen_a (icg7\<lparr>curRand := 4\<rparr>) = ucast (3 :: ulong) \<and>
           gen_b (icg7\<lparr>curRand := 4\<rparr>) = ucast (2 :: ulong)"
    by blast
  from reseed_restart [of "icg7\<lparr>curRand := 4\<rparr>" 7 3 2 2 zero_storage 4 zero_storage 1] f
  obtain v g1 g2 rs h1 h2 where
    h: "reseed 2 (icg7\<lparr>curRand := 4\<rparr>) = Some (v, g1)"
       "ICG_new zero_storage 7 3 2 2 = Some g2" "v = generatorIsValid g2"
       "rand_seq 4 g1 = Some (rs, h1)" "rand_seq 4 g2 = Some (rs, h2)"
    by blast
  have vp: "valid_params 7 3 2 2" by (simp add: valid_params_def prime_nat_7)
  have g2: "g2 = icg7\<lparr>seed := 2, curRand := 2\<rparr>"
    using h(2) vp by (simp add: ICG_new_eq zero_storage_def icg7_def)
  have g1: "v = True \<and> g1 = icg7\<lparr>seed := 2, curRand := 2\<rparr>"
    using h(1) reseed_eq [of "icg7\<lparr>curRand := 4\<rparr>" 7 3 2 2] f vp by (auto simp: icg7_def)
  have "map_option fst (rand_seq 4 (icg7\<lparr>seed := 2, curRand := 2\<rparr>)) = Some [0, 2, 0, 2]"
    unfolding icg7_def by code_simp
  with h g1 g2 f s2 ICG_new_icg7 show ?thesis by simp
qed

section \<open>Uniform reals on an interval\<close>

lemma randInterval_invalid: "\<not> generatorIsValid g \<Longrightarrow> randInterval A B g = Some (0, g)"
  by (simp add: randInterval_def)

lemma randInterval_valid:
  assumes "ICG_inv g" and "generatorIsValid g" and "A \<noteq> B"
  shows "\<exists>r. rand g = Some (r, g\<lparr>curRand := ucast r\<rparr>) \<and> ucast r < gen_p g \<and>
           randInterval A B g =
             Some (real (unat r) / real (unat (gen_p g)) * (max A B - min A B) + min A B,
                   g\<lparr>curRand := ucast r\<rparr>)"
proof -
  from rand_valid [OF assms(1,2)]
  obtain r where r: "rand g = Some (r, g\<lparr>curRand := ucast r\<rparr>)" "ucast r < gen_p g" by blast
  have "randInterval A B g =
             Some (real (unat r) / real (unat (gen_p g)) * (max A B - min A B) + min A B,
                   g\<lparr>curRand := ucast r\<rparr>)"
    using assms(2,3) r(1) by (auto simp: randInterval_def max_def min_def)
  with r show ?thesis by blast
qed

lemma randInterval_total: "ICG_inv g \<Longrightarrow> \<exists>x g'. randInterval A B g = Some (x, g')"
proof (cases "generatorIsValid g \<and> A \<noteq> B")
  case True
  moreover assume "ICG_inv g"
  ultimately show ?thesis using randInterval_valid [of g A B] by blast
next
  case False
  then show ?thesis by (auto simp: randInterval_def)
qed

lemma randInterval_inv:
  assumes "ICG_inv g" and "randInterval A B g = Some (x, g')"
  shows "ICG_inv g' \<and> generatorIsValid g' = generatorIsValid g \<and>
         useMullerNormal g' = useMullerNormal g \<and> mullerNormal g' = mullerNormal g"
proof (cases "generatorIsValid g \<and> A \<noteq> B")
  case True
  with randInterval_valid [OF assms(1), of A B] assms(2) obtain r where
    r: "rand g = Some (r, g\<lparr>curRand := ucast r\<rparr>)" "g' = g\<lparr>curRand := ucast r\<rparr>" by auto
  from rand_inv [OF assms(1) r(1)] r(2) show ?thesis by simp
next
  case False
  with assms show ?thesis by (auto simp: randInterval_def split: if_splits)
qed

text \<open>
  C9. Interval symmetry (a \<^verbatim>\<open>double\<close> being a real number here). From the same state,
  \<^verbatim>\<open>randInterval ( A, B )\<close> and \<^verbatim>\<open>randInterval ( B, A )\<close> give the same value and the same
  next state, and on a state built by the constructor and the operations both calls return.
  On a generator whose flag is set, \<^verbatim>\<open>randInterval ( A, A )\<close> returns \<open>A\<close> and leaves the
  generator as it is.
\<close>

theorem randInterval_symmetric:
  "randInterval A B g = randInterval B A g \<and>
   (generatorIsValid g \<longrightarrow> randInterval A A g = Some (A, g)) \<and>
   (ICG_inv g \<longrightarrow>
      (\<exists>x g'. randInterval A B g = Some (x, g') \<and> randInterval B A g = Some (x, g')))"
proof -
  have sym: "randInterval A B g = randInterval B A g"
    by (cases "A < B"; cases "B < A") (auto simp: randInterval_def)
  have same: "randInterval A A g = Some (A, g)" if "generatorIsValid g"
    using that by (simp add: randInterval_def)
  have "\<exists>x g'. randInterval A B g = Some (x, g') \<and> randInterval B A g = Some (x, g')"
    if "ICG_inv g"
    using randInterval_total [OF that, of A B] sym by auto
  with sym same show ?thesis by blast
qed

theorem randInterval_symmetric_witness:
  "generatorIsValid icg7 \<and> ICG_inv icg7 \<and>
   randInterval 20 25 icg7 = Some (165 / 7, icg7\<lparr>curRand := 5\<rparr>) \<and>
   randInterval 25 20 icg7 = Some (165 / 7, icg7\<lparr>curRand := 5\<rparr>) \<and>
   randInterval 3 3 icg7 = Some (3, icg7)"
proof -
  have r: "rand icg7 = Some (5, icg7\<lparr>curRand := 5\<rparr>)"
    by (simp add: rand_def icg7_def inverse_def)
  have v: "generatorIsValid icg7" by (simp add: icg7_def)
  have "randInterval 20 25 icg7 = Some (165 / 7, icg7\<lparr>curRand := 5\<rparr>)"
    using r v by (simp add: randInterval_def) (simp add: icg7_def)
  then show ?thesis
    using randInterval_symmetric [of 20 25 icg7] randInterval_symmetric [of 3 3 icg7] v icg7_inv
    by simp
qed

section \<open>Failed reseeding and reparametrising\<close>

lemma checkGeneratorIsValid_total:
  "\<exists>v. checkGeneratorIsValid g = Some (g\<lparr>generatorIsValid := v\<rparr>) \<and>
       (v \<longrightarrow> gen_p g > 3 \<and> gen_a g < gen_p g \<and> gen_b g < gen_p g \<and> seed g < gen_p g)"
proof (cases "gen_p g > 3")
  case True
  let ?v = "prime_nat (unat (ucast (gen_p g) :: ulong)) \<and> gen_a g < gen_p g \<and>
            gen_b g < gen_p g \<and> seed g < gen_p g"
  have "checkGeneratorIsValid g = Some (g\<lparr>generatorIsValid := ?v\<rparr>)"
    using True by (simp add: checkGeneratorIsValid_def isPrime_correct)
  with True show ?thesis by (intro exI [of _ ?v]) simp
next
  case False
  then have "checkGeneratorIsValid g = Some (g\<lparr>generatorIsValid := False\<rparr>)"
    by (simp add: checkGeneratorIsValid_def)
  then show ?thesis by (intro exI [of _ False]) simp
qed

text \<open>
  C10. No rollback. In every state, \<^verbatim>\<open>reseed\<close> returns; whatever validity \<open>v\<close> it returns,
  the generator it leaves has \<open>seed\<close> and \<open>curRand\<close> set to the new seed, \<open>p, a, b\<close> as before
  and the flag \<open>v\<close>. \<^verbatim>\<open>reparametrize\<close> returns too, and leaves \<open>p, a, b, seed, curRand\<close> set
  to the new parameters and the flag as returned. In particular, when the new parameters fail
  the validity predicate the result is \<open>False\<close>, the old parameters are gone and the generator
  is invalid.
\<close>

theorem reseed_reparametrize_no_rollback:
  "(\<exists>v g'. reseed s g = Some (v, g') \<and>
           g' = g\<lparr>generatorIsValid := v, seed := ucast s, curRand := ucast s\<rparr> \<and>
           (v \<longrightarrow> ucast s < gen_p g)) \<and>
   (\<exists>v g'. reparametrize p' a' b' seed' g = Some (v, g') \<and>
           g' = g\<lparr>generatorIsValid := v, gen_p := ucast p', gen_a := ucast a',
                  gen_b := ucast b', seed := ucast seed', curRand := ucast seed'\<rparr> \<and>
           v = valid_params p' a' b' seed') \<and>
   (\<not> valid_params p' a' b' seed' \<longrightarrow>
      reparametrize p' a' b' seed' g =
        Some (False, g\<lparr>generatorIsValid := False, gen_p := ucast p', gen_a := ucast a',
                      gen_b := ucast b', seed := ucast seed', curRand := ucast seed'\<rparr>)) \<and>
   (\<not> ucast s < gen_p g \<longrightarrow>
      reseed s g = Some (False, g\<lparr>generatorIsValid := False, seed := ucast s,
                                 curRand := ucast s\<rparr>))"
proof -
  let ?g = "g\<lparr>generatorIsValid := False, seed := ucast s, curRand := ucast s\<rparr>"
  from checkGeneratorIsValid_total [of ?g]
  obtain v where v: "checkGeneratorIsValid ?g = Some (?g\<lparr>generatorIsValid := v\<rparr>)"
    "v \<longrightarrow> ucast s < gen_p g" by auto
  have rs: "reseed s g = Some (v, g\<lparr>generatorIsValid := v, seed := ucast s, curRand := ucast s\<rparr>)"
    using v(1) by (simp add: reseed_def)
  have rp: "reparametrize p' a' b' seed' g =
     Some (valid_params p' a' b' seed',
           g\<lparr>generatorIsValid := valid_params p' a' b' seed', gen_p := ucast p',
             gen_a := ucast a', gen_b := ucast b', seed := ucast seed',
             curRand := ucast seed'\<rparr>)"
    by (rule reparametrize_eq)
  show ?thesis using rs v(2) rp by auto
qed

theorem reseed_reparametrize_no_rollback_witness:
  "\<not> valid_params 9 3 2 1 \<and> \<not> ucast (9 :: ulong) < gen_p icg7 \<and>
   reseed 9 icg7 = Some (False, icg7\<lparr>generatorIsValid := False, seed := 9, curRand := 9\<rparr>) \<and>
   reparametrize 9 3 2 1 icg7 = Some (False, icg7\<lparr>generatorIsValid := False, gen_p := 9\<rparr>)"
proof -
  have np: "\<not> prime_nat 9" by code_simp
  have h: "\<not> valid_params 9 3 2 1" "\<not> ucast (9 :: ulong) < gen_p icg7"
    by (simp_all add: valid_params_def np icg7_def)
  show ?thesis
    using reseed_reparametrize_no_rollback [of 9 icg7 9 3 2 1] h
    by (simp add: icg7_def)
qed

section \<open>The Gaussian sampler\<close>

lemma randStdNorm_loop_unfold:
  "randStdNorm_loop g =
     do {
       (u1, u2, q, g2) \<leftarrow> randStdNorm_draw g;
       if q \<le> EPS \<or> q > 1 then randStdNorm_loop g2 else Some (u1, u2, q, g2)
     }"
  by (subst randStdNorm_loop.simps)
    (simp add: randStdNorm_draw_def Let_def split: Option.bind_split prod.split)

lemma randStdNorm_draw_invalid:
  "\<not> generatorIsValid g \<Longrightarrow> randStdNorm_draw g = Some (0, 0, 0, g)"
  by (simp add: randStdNorm_draw_def randInterval_def)

lemma randStdNorm_loop_returns_valid:
  "randStdNorm_loop g = Some y \<Longrightarrow> generatorIsValid g"
proof (induction rule: randStdNorm_loop.raw_induct [rotated, consumes 1])
  case (1 f g y)
  show ?case
  proof (rule ccontr)
    assume nv: "\<not> generatorIsValid g"
    then have "randInterval (- 1) 1 g = Some (0, g)" by (simp add: randInterval_def)
    with 1(2) have "f g = Some y" by (simp add: EPS_def)
    with 1(1) nv show False by blast
  qed
qed

lemma randStdNorm_invalid_diverges:
  assumes "\<not> generatorIsValid g" and "\<not> useMullerNormal g"
  shows "randStdNorm g = None"
proof -
  have "randStdNorm_loop g = None"
    using randStdNorm_loop_returns_valid [of g] assms(1) by (cases "randStdNorm_loop g") auto
  with assms(2) show ?thesis by (simp add: randStdNorm_def)
qed

lemma accepts_within_returns:
  "accepts_within n g \<Longrightarrow> \<exists>y. randStdNorm_loop g = Some y"
proof (induction n arbitrary: g)
  case 0
  then show ?case by simp
next
  case (Suc n)
  from Suc.prems obtain u1 u2 q g2 where d: "randStdNorm_draw g = Some (u1, u2, q, g2)"
    by (auto split: option.splits)
  show ?case
  proof (cases "q \<le> EPS \<or> q > 1")
    case True
    with Suc.prems d have "accepts_within n g2" by simp
    from Suc.IH [OF this] obtain y where y: "randStdNorm_loop g2 = Some y" by blast
    have "randStdNorm_loop g = randStdNorm_loop g2"
      using True d by (subst randStdNorm_loop_unfold) simp
    with y have "randStdNorm_loop g = Some y" by (rule trans [rotated])
    then show ?thesis by (rule exI)
  next
    case False
    have "randStdNorm_loop g = Some (u1, u2, q, g2)"
      using False d by (subst randStdNorm_loop_unfold) simp
    then show ?thesis by (rule exI)
  qed
qed

lemma returns_accepts_within:
  "randStdNorm_loop g = Some y \<Longrightarrow> \<exists>n. accepts_within n g"
proof (induction rule: randStdNorm_loop.raw_induct [rotated, consumes 1])
  case (1 f g y)
  from 1(2) obtain u1 g1 where a: "randInterval (- 1) 1 g = Some (u1, g1)"
    by (auto split: Option.bind_splits)
  with 1(2) obtain u2 g2 where b: "randInterval (- 1) 1 g1 = Some (u2, g2)"
    by (auto split: Option.bind_splits)
  define q where "q = u1 * u1 + u2 * u2"
  have d: "randStdNorm_draw g = Some (u1, u2, q, g2)"
    using a b by (simp add: randStdNorm_draw_def q_def)
  show ?case
  proof (cases "q \<le> EPS \<or> q > 1")
    case True
    with 1(2) a b have "f g2 = Some y" by (simp add: q_def Let_def)
    with 1(1) obtain n where "accepts_within n g2" by blast
    with d True have "accepts_within (Suc n) g" by simp
    then show ?thesis ..
  next
    case False
    with d have "accepts_within (Suc 0) g" by simp
    then show ?thesis ..
  qed
qed

lemma randStdNorm_returns_iff:
  assumes "\<not> useMullerNormal g"
  shows "(\<exists>y. randStdNorm g = Some y) \<longleftrightarrow> (\<exists>n. accepts_within n g)"
proof
  assume "\<exists>y. randStdNorm g = Some y"
  then obtain z where "randStdNorm_loop g = Some z"
    using assms by (auto simp: randStdNorm_def split: Option.bind_splits)
  then show "\<exists>n. accepts_within n g" by (rule returns_accepts_within)
next
  assume "\<exists>n. accepts_within n g"
  then obtain z where "randStdNorm_loop g = Some z" using accepts_within_returns by blast
  then show "\<exists>y. randStdNorm g = Some y"
    using assms by (cases z) (simp add: randStdNorm_def Let_def)
qed

lemma randNormal_returns_iff:
  "(\<exists>y. randNormal mu ss g = Some y) \<longleftrightarrow> (\<exists>y. randStdNorm g = Some y)"
  by (auto simp: randNormal_def split: Option.bind_splits)

lemma randStdNorm_draw_icg5: "randStdNorm_draw icg5 = Some (- 1, - 1, 2, icg5)"
proof -
  have "rand icg5 = Some (0, icg5)" by (simp add: rand_def icg5_def)
  then have "randInterval (- 1) 1 icg5 = Some (- 1, icg5)"
    by (simp add: randInterval_def) (simp add: icg5_def)
  then show ?thesis by (simp add: randStdNorm_draw_def)
qed

lemma not_accepts_within_icg5: "\<not> accepts_within n icg5"
  by (induction n) (simp_all add: randStdNorm_draw_icg5 EPS_def)

lemma ICG_new_icg5: "ICG_new zero_storage 5 0 0 0 = Some icg5"
proof -
  have "prime_nat 5" by code_simp
  then show ?thesis
    by (simp add: ICG_new_eq zero_storage_def icg5_def valid_params_def)
qed

lemma ICG_new_icg9: "ICG_new zero_storage 9 0 0 0 = Some icg9"
proof -
  have "\<not> prime_nat 9" by code_simp
  then show ?thesis
    by (simp add: ICG_new_eq zero_storage_def icg9_def valid_params_def)
qed

lemma inverse_icg7_5: "inverse (icg7\<lparr>curRand := 5\<rparr>) 5 = Some 3"
  unfolding icg7_def by code_simp

lemma rand_icg7: "rand icg7 = Some (5, icg7\<lparr>curRand := 5\<rparr>)"
  by (simp add: rand_def icg7_def inverse_def)

lemma rand_icg7_5: "rand (icg7\<lparr>curRand := 5\<rparr>) = Some (4, icg7\<lparr>curRand := 4\<rparr>)"
proof -
  have v: "generatorIsValid (icg7\<lparr>curRand := 5\<rparr>)" "curRand (icg7\<lparr>curRand := 5\<rparr>) = 5"
    "gen_p (icg7\<lparr>curRand := 5\<rparr>) = 7" "gen_a (icg7\<lparr>curRand := 5\<rparr>) = 3"
    "gen_b (icg7\<lparr>curRand := 5\<rparr>) = 2"
    by (simp_all add: icg7_def)
  show ?thesis
    unfolding rand_def using inverse_icg7_5 by (simp add: v)
qed

lemma randStdNorm_draw_icg7:
  "randStdNorm_draw icg7 = Some (3 / 7, 1 / 7, 10 / 49, icg7\<lparr>curRand := 4\<rparr>)"
proof -
  have v: "generatorIsValid icg7" "generatorIsValid (icg7\<lparr>curRand := 5\<rparr>)"
    "gen_p (icg7\<lparr>curRand := 5\<rparr>) = 7" "gen_p (icg7\<lparr>curRand := 4\<rparr>) = 7"
    by (simp_all add: icg7_def)
  have 1: "randInterval (- 1) 1 icg7 = Some (3 / 7, icg7\<lparr>curRand := 5\<rparr>)"
    using rand_icg7 v by (simp add: randInterval_def)
  have 2: "randInterval (- 1) 1 (icg7\<lparr>curRand := 5\<rparr>) = Some (1 / 7, icg7\<lparr>curRand := 4\<rparr>)"
    using rand_icg7_5 v by (simp add: randInterval_def)
  show ?thesis by (simp add: randStdNorm_draw_def 1 2)
qed

lemma accepts_within_icg7: "accepts_within (Suc 0) icg7"
  by (simp add: randStdNorm_draw_icg7 EPS_def)

lemma randStdNorm_icg7:
  "randStdNorm icg7 = Some (sqrt (- 2 * ln (10 / 49) / (10 / 49)) * (3 / 7), icg7_spare)"
proof -
  have "randStdNorm_loop icg7 = Some (3 / 7, 1 / 7, 10 / 49, icg7\<lparr>curRand := 4\<rparr>)"
    by (subst randStdNorm_loop_unfold) (simp add: randStdNorm_draw_icg7 EPS_def)
  moreover have "\<not> useMullerNormal icg7" by (simp add: icg7_def)
  ultimately show ?thesis by (simp add: randStdNorm_def icg7_spare_def Let_def)
qed

lemma icg7_spare_positive: "0 < mullerNormal icg7_spare"
proof -
  have "ln (10 / 49 :: real) < 0" by (rule ln_less_zero) simp_all
  then have "0 < - 2 * ln (10 / 49 :: real) / (10 / 49)" by simp
  then have "0 < sqrt (- 2 * ln (10 / 49 :: real) / (10 / 49))" by (simp only: real_sqrt_gt_0_iff)
  then show ?thesis by (simp add: icg7_spare_def)
qed

lemma randStdNorm_spare:
  "useMullerNormal g \<Longrightarrow> randStdNorm g = Some (mullerNormal g, g\<lparr>useMullerNormal := False\<rparr>)"
  by (simp add: randStdNorm_def)

text \<open>
  C3 (the code departs from the claim). The four uniform samplers do return 0 on an invalid
  generator and leave it unchanged (\<open>rand_invalid\<close>, \<open>randInterval_invalid\<close>), but
  \<^verbatim>\<open>randStdNorm\<close> has no validity guard. The constructor called with \<open>p = 9\<close> builds the invalid
  generator \<open>icg9\<close>; on it \<^verbatim>\<open>randStdNorm ( )\<close> and \<^verbatim>\<open>randNormal ( 5, 2 )\<close> do not return, since
  every iteration of the rejection loop draws \<open>u1 = u2 = 0\<close> and rejects \<open>q = 0\<close>. And on the
  invalid generator left by \<^verbatim>\<open>reseed ( 9 )\<close> after one \<^verbatim>\<open>randStdNorm\<close> call on \<open>icg7\<close>,
  \<^verbatim>\<open>randStdNorm\<close> returns the cached spare, which is not 0, and clears the flag of the cache.
\<close>

theorem invalid_generator_randStdNorm:
  "ICG_new zero_storage 9 0 0 0 = Some icg9 \<and> \<not> generatorIsValid icg9 \<and>
   rand icg9 = Some (0, icg9) \<and> rand01 icg9 = Some (0, icg9) \<and>
   rand_range 100 icg9 = Some (0, icg9) \<and> randInterval 20 25 icg9 = Some (0, icg9) \<and>
   randStdNorm icg9 = None \<and> randNormal 5 2 icg9 = None \<and>
   reseed 9 icg7_spare =
     Some (False, icg7_spare\<lparr>generatorIsValid := False, seed := 9, curRand := 9\<rparr>) \<and>
   randStdNorm (icg7_spare\<lparr>generatorIsValid := False, seed := 9, curRand := 9\<rparr>) =
     Some (mullerNormal icg7_spare,
           icg7_spare\<lparr>generatorIsValid := False, seed := 9, curRand := 9,
                      useMullerNormal := False\<rparr>) \<and>
   mullerNormal icg7_spare \<noteq> 0"
proof -
  have nv: "\<not> generatorIsValid icg9" "\<not> useMullerNormal icg9" by (simp_all add: icg9_def)
  have d: "randStdNorm icg9 = None" using nv by (rule randStdNorm_invalid_diverges)
  then have dn: "randNormal 5 2 icg9 = None" by (simp add: randNormal_def)
  have u: "rand icg9 = Some (0, icg9)" "rand01 icg9 = Some (0, icg9)"
    "rand_range 100 icg9 = Some (0, icg9)" "randInterval 20 25 icg9 = Some (0, icg9)"
    using nv(1) by (simp_all add: rand_def rand01_def rand_range_def randInterval_def)
  have f: "gen_p icg7_spare = ucast (7 :: ulong)" "gen_a icg7_spare = ucast (3 :: ulong)"
    "gen_b icg7_spare = ucast (2 :: ulong)"
    by (simp_all add: icg7_spare_def icg7_def)
  have "\<not> valid_params 7 3 2 9" by (simp add: valid_params_def)
  then have rs: "reseed 9 icg7_spare =
     Some (False, icg7_spare\<lparr>generatorIsValid := False, seed := 9, curRand := 9\<rparr>)"
    using reseed_eq [OF f, of 9] by simp
  have sp: "randStdNorm (icg7_spare\<lparr>generatorIsValid := False, seed := 9, curRand := 9\<rparr>) =
     Some (mullerNormal icg7_spare,
           icg7_spare\<lparr>generatorIsValid := False, seed := 9, curRand := 9,
                      useMullerNormal := False\<rparr>)"
    by (subst randStdNorm_spare) (simp_all add: icg7_spare_def)
  show ?thesis
    using ICG_new_icg9 nv(1) u d dn rs sp icg7_spare_positive by simp
qed

text \<open>
  C4 (the code departs from the claim). \<^verbatim>\<open>useMullerNormal\<close> is written by \<^verbatim>\<open>randStdNorm\<close>
  only. The constructor leaves it as the storage holds it, so in storage where it reads as
  true the new generator starts with a cached spare. After one \<^verbatim>\<open>randStdNorm\<close> call on the
  generator built from \<open>(7, 3, 2, 1)\<close> the flag is set; \<^verbatim>\<open>reseed ( 4 )\<close> and
  \<^verbatim>\<open>reparametrize ( 5, 0, 0, 0 )\<close> both succeed and leave it set, and the next
  \<^verbatim>\<open>randStdNorm\<close> after the reseed returns the spare computed under seed 1 without drawing:
  \<open>curRand\<close> is still 4.
\<close>

theorem spare_survives_reseed:
  "ICG_new (zero_storage\<lparr>useMullerNormal := True\<rparr>) 7 3 2 1 =
     Some (icg7\<lparr>useMullerNormal := True\<rparr>) \<and>
   ICG_new zero_storage 7 3 2 1 = Some icg7 \<and>
   randStdNorm icg7 = Some (sqrt (- 2 * ln (10 / 49) / (10 / 49)) * (3 / 7), icg7_spare) \<and>
   useMullerNormal icg7_spare \<and>
   reseed 4 icg7_spare = Some (True, icg7_spare\<lparr>seed := 4, curRand := 4\<rparr>) \<and>
   useMullerNormal (icg7_spare\<lparr>seed := 4, curRand := 4\<rparr>) \<and>
   randStdNorm (icg7_spare\<lparr>seed := 4, curRand := 4\<rparr>) =
     Some (mullerNormal icg7_spare,
           icg7_spare\<lparr>seed := 4, curRand := 4, useMullerNormal := False\<rparr>) \<and>
   reparametrize 5 0 0 0 icg7_spare =
     Some (True, icg5\<lparr>mullerNormal := mullerNormal icg7_spare, useMullerNormal := True\<rparr>)"
proof -
  have p5: "prime_nat 5" by code_simp
  have vp: "valid_params 7 3 2 1" "valid_params 7 3 2 4" "valid_params 5 0 0 0"
    by (simp_all add: valid_params_def prime_nat_7 p5)
  have c: "ICG_new (zero_storage\<lparr>useMullerNormal := True\<rparr>) 7 3 2 1 =
     Some (icg7\<lparr>useMullerNormal := True\<rparr>)"
    using vp(1) by (simp add: ICG_new_eq zero_storage_def icg7_def)
  have f: "gen_p icg7_spare = ucast (7 :: ulong)" "gen_a icg7_spare = ucast (3 :: ulong)"
    "gen_b icg7_spare = ucast (2 :: ulong)"
    by (simp_all add: icg7_spare_def icg7_def)
  have rs: "reseed 4 icg7_spare = Some (True, icg7_spare\<lparr>seed := 4, curRand := 4\<rparr>)"
    using reseed_eq [OF f, of 4] vp(2) by (simp add: icg7_spare_def icg7_def)
  have u: "useMullerNormal icg7_spare" "useMullerNormal (icg7_spare\<lparr>seed := 4, curRand := 4\<rparr>)"
    by (simp_all add: icg7_spare_def)
  have sp: "randStdNorm (icg7_spare\<lparr>seed := 4, curRand := 4\<rparr>) =
     Some (mullerNormal icg7_spare,
           icg7_spare\<lparr>seed := 4, curRand := 4, useMullerNormal := False\<rparr>)"
    by (subst randStdNorm_spare) (simp_all add: u)
  have rp: "reparametrize 5 0 0 0 icg7_spare =
     Some (True, icg5\<lparr>mullerNormal := mullerNormal icg7_spare, useMullerNormal := True\<rparr>)"
    using vp(3) by (simp add: reparametrize_eq icg7_spare_def icg7_def icg5_def)
  show ?thesis using c ICG_new_icg7 randStdNorm_icg7 u rs sp rp by simp
qed

section \<open>Which calls return\<close>

lemma inverse_total:
  assumes "ICG_inv g" and "generatorIsValid g"
  shows "\<exists>z. inverse g y = Some z"
proof -
  from assms(1) obtain p' :: ulong where f: "gen_p g = ucast p'"
    unfolding ICG_inv_def by (metis fits_ulongE)
  from assms have pr: "prime_nat (unat p')"
    unfolding ICG_inv_def by (simp add: f unat_ucast_up)
  show ?thesis
  proof (cases "y = 0 \<or> y = 1 \<or> gen_p g \<le> ucast y")
    case True
    then show ?thesis by (auto simp: inverse_def)
  next
    case False
    then have "y \<noteq> 0" "y < p'" by (simp_all add: f ucast_up_le_iff not_le)
    from inverse_correct_nat [OF f pr this] show ?thesis by blast
  qed
qed

lemma rand01_total: "ICG_inv g \<Longrightarrow> \<exists>x g'. rand01 g = Some (x, g')"
  using rand_total [of g] by (auto simp: rand01_def)

lemma rand_range_total: "ICG_inv g \<Longrightarrow> \<exists>x g'. rand_range k g = Some (x, g')"
  using rand01_total [of g] by (auto simp: rand_range_def)

text \<open>
  C6, as stated, fails on a valid generator: the constructor accepts \<open>(5, 0, 0, 0)\<close>, every
  draw of that generator is 0, so every pair is \<open>u1 = u2 = -1\<close> with \<open>q = 2 > 1\<close>, and
  \<^verbatim>\<open>randStdNorm\<close> and \<^verbatim>\<open>randNormal\<close> never return.
\<close>

theorem randStdNorm_diverges_on_valid:
  "ICG_new zero_storage 5 0 0 0 = Some icg5 \<and> generatorIsValid icg5 \<and>
   \<not> useMullerNormal icg5 \<and> randStdNorm icg5 = None \<and> randNormal 0 1 icg5 = None"
proof -
  have u: "\<not> useMullerNormal icg5" and v: "generatorIsValid icg5" by (simp_all add: icg5_def)
  have "randStdNorm icg5 = None"
    using randStdNorm_returns_iff [OF u] not_accepts_within_icg5
    by (cases "randStdNorm icg5") auto
  moreover from this have "randNormal 0 1 icg5 = None" by (simp add: randNormal_def)
  ultimately show ?thesis using ICG_new_icg5 u v by simp
qed

text \<open>
  C6, amended. The constructor, \<^verbatim>\<open>reparametrize\<close>, \<^verbatim>\<open>reseed\<close> and \<^verbatim>\<open>isPrime\<close> return on
  every input. In every state built by the constructor and the operations (\<open>ICG_inv\<close>),
  \<^verbatim>\<open>rand ( )\<close>, \<^verbatim>\<open>rand ( range )\<close>, \<^verbatim>\<open>rand01\<close> and \<^verbatim>\<open>randInterval\<close> return, and so does
  \<^verbatim>\<open>inverse\<close> when the generator is valid. \<^verbatim>\<open>randStdNorm\<close> and \<^verbatim>\<open>randNormal\<close> return at once
  when a spare is cached; without a spare, on a generator whose flag is set, they return
  exactly when some iteration of the rejection loop draws a pair with \<open>EPS < q \<le> 1\<close>.
\<close>

theorem operations_return:
  "(\<exists>g'. ICG_new storage p' a' b' seed' = Some g' \<and> ICG_inv g') \<and>
   (\<exists>r. reparametrize p' a' b' seed' g = Some r) \<and>
   (\<exists>r. reseed seed' g = Some r) \<and>
   (\<exists>r. isPrime n = Some r) \<and>
   (ICG_inv g \<longrightarrow>
      (\<exists>r. rand g = Some r) \<and> (\<exists>r. rand_range k g = Some r) \<and> (\<exists>r. rand01 g = Some r) \<and>
      (\<exists>r. randInterval A B g = Some r) \<and>
      (generatorIsValid g \<longrightarrow> (\<exists>z. inverse g y = Some z))) \<and>
   (useMullerNormal g \<longrightarrow>
      randStdNorm g = Some (mullerNormal g, g\<lparr>useMullerNormal := False\<rparr>) \<and>
      randNormal mu ss g = Some (sqrt ss * mullerNormal g + mu, g\<lparr>useMullerNormal := False\<rparr>)) \<and>
   (generatorIsValid g \<and> \<not> useMullerNormal g \<longrightarrow>
      ((\<exists>r. randStdNorm g = Some r) \<longleftrightarrow> (\<exists>n. accepts_within n g)) \<and>
      ((\<exists>r. randNormal mu ss g = Some r) \<longleftrightarrow> (\<exists>n. accepts_within n g)))"
proof -
  have c: "\<exists>g'. ICG_new storage p' a' b' seed' = Some g' \<and> ICG_inv g'"
    using ICG_new_inv [of storage p' a' b' seed'] by (simp add: ICG_new_eq)
  have rp: "\<exists>r. reparametrize p' a' b' seed' g = Some r" by (simp add: reparametrize_eq)
  have rs: "\<exists>r. reseed seed' g = Some r"
    using checkGeneratorIsValid_total
      [of "g\<lparr>generatorIsValid := False, seed := ucast seed', curRand := ucast seed'\<rparr>"]
    by (auto simp: reseed_def)
  have ip: "\<exists>r. isPrime n = Some r" by (simp add: isPrime_correct)
  have u: "(\<exists>r. rand g = Some r) \<and> (\<exists>r. rand_range k g = Some r) \<and> (\<exists>r. rand01 g = Some r) \<and>
      (\<exists>r. randInterval A B g = Some r) \<and>
      (generatorIsValid g \<longrightarrow> (\<exists>z. inverse g y = Some z))" if "ICG_inv g"
    using rand_total [OF that] rand_range_total [OF that, of k] rand01_total [OF that]
      randInterval_total [OF that, of A B] inverse_total [OF that, of y]
    by auto
  have sp: "randStdNorm g = Some (mullerNormal g, g\<lparr>useMullerNormal := False\<rparr>) \<and>
      randNormal mu ss g = Some (sqrt ss * mullerNormal g + mu, g\<lparr>useMullerNormal := False\<rparr>)"
    if "useMullerNormal g"
    using randStdNorm_spare [OF that] by (simp add: randNormal_def)
  have lp: "((\<exists>r. randStdNorm g = Some r) \<longleftrightarrow> (\<exists>n. accepts_within n g)) \<and>
      ((\<exists>r. randNormal mu ss g = Some r) \<longleftrightarrow> (\<exists>n. accepts_within n g))"
    if "generatorIsValid g \<and> \<not> useMullerNormal g"
    using that randStdNorm_returns_iff [of g] randNormal_returns_iff [of mu ss g] by simp
  show ?thesis using c rp rs ip u sp lp by blast
qed

theorem operations_return_witness:
  "ICG_inv icg7 \<and> generatorIsValid icg7 \<and> \<not> useMullerNormal icg7 \<and>
   accepts_within (Suc 0) icg7 \<and> (\<exists>r. randStdNorm icg7 = Some r) \<and>
   (\<exists>r. randNormal 5 2 icg7 = Some r) \<and> (\<exists>r. rand icg7 = Some r) \<and>
   useMullerNormal icg7_spare \<and>
   randStdNorm icg7_spare = Some (mullerNormal icg7_spare, icg7_spare\<lparr>useMullerNormal := False\<rparr>)"
proof -
  have h: "generatorIsValid icg7" "\<not> useMullerNormal icg7" "useMullerNormal icg7_spare"
    by (simp_all add: icg7_def icg7_spare_def)
  have a: "\<exists>n. accepts_within n icg7" using accepts_within_icg7 by (rule exI)
  have 1: "(\<exists>r. randStdNorm icg7 = Some r) \<and> (\<exists>r. randNormal 5 2 icg7 = Some r) \<and>
           (\<exists>r. rand icg7 = Some r)"
    using operations_return [of zero_storage 7 3 2 1 icg7 7 0 0 0 0 5 2] h(1,2) a icg7_inv
    by blast
  have 2: "randStdNorm icg7_spare =
     Some (mullerNormal icg7_spare, icg7_spare\<lparr>useMullerNormal := False\<rparr>)"
    using operations_return [of zero_storage 7 3 2 1 icg7_spare 7 0 0 0 0 5 2] h(3) by blast
  show ?thesis using 1 2 h icg7_inv accepts_within_icg7 by blast
qed

end
